theory Spec2Isabelle
  imports Main "HOL-Library.Sublist"
begin

section \<open>The data loader of \<^verbatim>\<open>src/js/main.js\<close>\<close>

text \<open>
  The class \<^verbatim>\<open>DataLoader\<close> keeps two maps, \<^verbatim>\<open>cache\<close> (url to decoded data) and
  \<^verbatim>\<open>loadingStates\<close> (url to the promise of the fetch under way). Its methods are
  \<^verbatim>\<open>async\<close>: each runs synchronously up to its first \<^verbatim>\<open>await\<close>, hands a promise to
  its caller, and continues when the awaited promise has settled. The embedding makes that
  explicit. A state holds the two maps of the object, the promises made by \<^verbatim>\<open>fetchData\<close>
  together with the suspended \<^verbatim>\<open>loadData\<close> call that awaits each of them, the urls passed
  to the transport \<^verbatim>\<open>fetch\<close>, and the promises made by \<^verbatim>\<open>Promise.all\<close>. Every method is
  a function on states for its synchronous part and a second function for its continuation;
  the scheduler is a list of events, in any order.
\<close>

subsection \<open>Values of the run-time\<close>

type_synonym url = string

text \<open>A promise made by \<^verbatim>\<open>fetchData\<close> is named by its position in the list of promises.\<close>

type_synonym pid = nat

text \<open>A thrown value: the name of its class (\<^verbatim>\<open>Error\<close>, \<^verbatim>\<open>TypeError\<close>, ...) and its message.\<close>

datatype js_error = JsError (err_name: string) (err_message: string)

datatype 'v promise_state = Pending | Fulfilled 'v | Rejected js_error

text \<open>
  What the transport does with one request: \<^verbatim>\<open>fetch(url)\<close> rejects, or it yields a
  response with its \<^verbatim>\<open>ok\<close> flag, its \<^verbatim>\<open>status\<close> and what \<^verbatim>\<open>response.json()\<close> gives when
  it is asked to decode the body.
\<close>

datatype 'v transport_outcome =
    FetchRejected js_error
  | FetchResponse (resp_ok: bool) (resp_status: nat) (resp_json: "js_error + 'v")

datatype console_entry =
    ConsoleLog string
  | ConsoleWarn string js_error
  | ConsoleError string js_error

text \<open>
  One call of \<^verbatim>\<open>fetchData\<close> made by \<^verbatim>\<open>loadData\<close> (line 18), with the call of
  \<^verbatim>\<open>loadData\<close> that made it and is suspended on it at line 22: the variables \<^verbatim>\<open>url\<close>
  and \<^verbatim>\<open>useCache\<close> of that call, the state of the promise \<^verbatim>\<open>fetchData\<close> returned
  (\<open>p_state\<close>), and the state of the promise that call of \<^verbatim>\<open>loadData\<close> returned to its
  own caller (\<open>p_result\<close>), which is pending until the call has run its continuation
  (lines 24-33).
\<close>

record 'v fetch_promise =
  p_url :: url
  p_useCache :: bool
  p_state :: "'v promise_state"
  p_result :: "'v promise_state"

text \<open>The suspended call has continued when the promise it returned has settled.\<close>

definition p_resumed :: "'v fetch_promise \<Rightarrow> bool" where
  "p_resumed fr \<longleftrightarrow> p_result fr \<noteq> Pending"

text \<open>
  The promise a call of \<^verbatim>\<open>loadData\<close> returns: already fulfilled from the cache (line 11),
  one that follows the promise found in \<^verbatim>\<open>loadingStates\<close> (line 15), or the promise of the
  call that started the fetch itself, which settles when its continuation returns or
  rethrows.
\<close>

datatype 'v handle = Served 'v | Joined pid | Initiated pid

text \<open>A promise made by \<^verbatim>\<open>Promise.all\<close>: the promises it waits for, in order, and its state.\<close>

record 'v all_promise =
  members :: "'v handle list"
  a_state :: "'v list promise_state"

record 'v loader =
  cache :: "url \<rightharpoonup> 'v"
  loadingStates :: "url \<rightharpoonup> pid"
  promises :: "'v fetch_promise list"
  requests :: "url list"
  alls :: "'v all_promise list"

text \<open>The constructor (lines 4-7), in a run-time where nothing has happened yet.\<close>

definition DataLoader :: "'v loader" where
  "DataLoader = \<lparr>cache = Map.empty, loadingStates = Map.empty, promises = [],
                 requests = [], alls = []\<rparr>"

subsection \<open>\<^verbatim>\<open>fetchData\<close>\<close>

text \<open>\<^verbatim>\<open>${response.status}\<close>: a number in decimal.\<close>

definition digit_char :: "nat \<Rightarrow> char" where
  "digit_char d = char_of (48 + d)"

function decimal :: "nat \<Rightarrow> string" where
  "decimal n = (if n < 10 then [digit_char n] else decimal (n div 10) @ [digit_char (n mod 10)])"
  by pat_completeness auto
termination
  by (relation "measure id") auto

declare decimal.simps [simp del]

definition http_error :: "nat \<Rightarrow> js_error" where
  "http_error status = JsError ''Error'' (''HTTP error! status: '' @ decimal status)"

definition failed_to_load :: "url \<Rightarrow> js_error \<Rightarrow> console_entry" where
  "failed_to_load u e = ConsoleError (''Failed to load data from '' @ u @ '':'') e"

text \<open>
  \<^verbatim>\<open>fetchData\<close> (lines 36-49) up to its first \<^verbatim>\<open>await\<close>: it calls \<^verbatim>\<open>fetch(url)\<close> and
  returns a new pending promise. The frame of the calling \<^verbatim>\<open>loadData\<close> is stored with it.
\<close>

definition fetchData :: "url \<Rightarrow> bool \<Rightarrow> 'v loader \<Rightarrow> pid \<times> 'v loader" where
  "fetchData u useCache s =
     (length (promises s),
      s\<lparr>promises := promises s @
           [\<lparr>p_url = u, p_useCache = useCache, p_state = Pending, p_result = Pending\<rparr>],
        requests := requests s @ [u]\<rparr>)"

text \<open>
  The rest of \<^verbatim>\<open>fetchData\<close>, once the transport has answered: what it writes to the
  console and how its promise settles. A rejected \<^verbatim>\<open>fetch\<close> and a failing
  \<^verbatim>\<open>response.json()\<close> land in the \<^verbatim>\<open>catch\<close> and are rethrown unchanged; a response that
  is not \<^verbatim>\<open>ok\<close> throws a new \<^verbatim>\<open>Error\<close>, which takes the same way.
\<close>

fun fetchData_settle :: "url \<Rightarrow> 'v transport_outcome \<Rightarrow> console_entry list \<times> (js_error + 'v)" where
  "fetchData_settle u (FetchRejected e) = ([failed_to_load u e], Inl e)"
| "fetchData_settle u (FetchResponse ok status body) =
     (if \<not> ok then ([failed_to_load u (http_error status)], Inl (http_error status))
      else case body of
        Inl e \<Rightarrow> ([failed_to_load u e], Inl e)
      | Inr data \<Rightarrow> ([], Inr data))"

definition settled :: "js_error + 'v \<Rightarrow> 'v promise_state" where
  "settled r = (case r of Inl e \<Rightarrow> Rejected e | Inr v \<Rightarrow> Fulfilled v)"

text \<open>The transport answers the request behind promise \<open>p\<close>; a promise settles once.\<close>

definition settle :: "pid \<Rightarrow> 'v transport_outcome \<Rightarrow> 'v loader \<Rightarrow> 'v loader" where
  "settle p t s =
     (if p < length (promises s) \<and> p_state (promises s ! p) = Pending
      then s\<lparr>promises := (promises s)
                [p := (promises s ! p)
                   \<lparr>p_state := settled (snd (fetchData_settle (p_url (promises s ! p)) t))\<rparr>]\<rparr>
      else s)"

subsection \<open>\<^verbatim>\<open>loadData\<close>\<close>

text \<open>Lines 9-22: the cache, then the fetch under way, then a new fetch.\<close>

definition loadData :: "url \<Rightarrow> bool \<Rightarrow> 'v loader \<Rightarrow> 'v handle \<times> 'v loader" where
  "loadData u useCache s =
     (case (if useCache then cache s u else None) of
        Some data \<Rightarrow> (Served data, s)
      | None \<Rightarrow>
         (case loadingStates s u of
            Some p \<Rightarrow> (Joined p, s)
          | None \<Rightarrow>
             (let (p, s') = fetchData u useCache s
              in (Initiated p, s'\<lparr>loadingStates := (loadingStates s')(u \<mapsto> p)\<rparr>))))"

text \<open>
  Lines 22-33: the continuation of the call suspended on promise \<open>p\<close>. It runs once,
  after \<open>p\<close> has settled: it returns the data (line 29) or throws the error again
  (line 32), which settles the promise the call returned.
\<close>

definition loadData_resume :: "pid \<Rightarrow> 'v loader \<Rightarrow> 'v loader" where
  "loadData_resume p s =
     (if p < length (promises s) \<and> \<not> p_resumed (promises s ! p)
      then (let fr = promises s ! p in
        case p_state fr of
          Pending \<Rightarrow> s
        | Fulfilled data \<Rightarrow>
            s\<lparr>cache := (if p_useCache fr then (cache s)(p_url fr \<mapsto> data) else cache s),
              loadingStates := (loadingStates s)(p_url fr := None),
              promises := (promises s)[p := fr\<lparr>p_result := Fulfilled data\<rparr>]\<rparr>
        | Rejected e \<Rightarrow>
            s\<lparr>loadingStates := (loadingStates s)(p_url fr := None),
              promises := (promises s)[p := fr\<lparr>p_result := Rejected e\<rparr>]\<rparr>)
      else s)"

text \<open>
  How the promise returned by a call of \<^verbatim>\<open>loadData\<close> stands in a state. \<^verbatim>\<open>loadData\<close> is
  \<^verbatim>\<open>async\<close>, so a call that returns the promise found in \<^verbatim>\<open>loadingStates\<close> (line 15)
  hands its caller a promise of its own, which takes the state of the promise of
  \<^verbatim>\<open>fetchData\<close> through a reaction. That reaction is registered after the one of the
  \<^verbatim>\<open>await\<close> of line 22, which the call that started the fetch has registered before it
  returned: the promise of a joining call settles only after the starting call has
  continued, and then as the promise of \<^verbatim>\<open>fetchData\<close> has settled.
\<close>

fun handle_outcome :: "'v loader \<Rightarrow> 'v handle \<Rightarrow> 'v promise_state" where
  "handle_outcome s (Served data) = Fulfilled data"
| "handle_outcome s (Joined p) =
     (if p < length (promises s) \<and> p_resumed (promises s ! p)
      then p_state (promises s ! p) else Pending)"
| "handle_outcome s (Initiated p) =
     (if p < length (promises s) then p_result (promises s ! p) else Pending)"

subsection \<open>\<^verbatim>\<open>clearCache\<close>\<close>

text \<open>
  Lines 65-71. The test \<^verbatim>\<open>if (url)\<close> is on truthiness: \<^verbatim>\<open>null\<close>, a missing argument
  and the empty string all take the \<^verbatim>\<open>else\<close> branch.
\<close>

definition clearCache :: "url option \<Rightarrow> 'v loader \<Rightarrow> 'v loader" where
  "clearCache arg s =
     (case arg of
        None \<Rightarrow> s\<lparr>cache := Map.empty\<rparr>
      | Some u \<Rightarrow> if u \<noteq> [] then s\<lparr>cache := (cache s)(u := None)\<rparr> else s\<lparr>cache := Map.empty\<rparr>)"

subsection \<open>\<^verbatim>\<open>loadMultiple\<close> and \<^verbatim>\<open>preload\<close>\<close>

text \<open>
  \<^verbatim>\<open>Promise.all\<close> over promises in the given states: rejected with the reason of a
  rejected one (the first in order, when several are rejected already), fulfilled with
  all the values in order when all are fulfilled, pending otherwise.
\<close>

fun all_settle :: "'v promise_state list \<Rightarrow> 'v list promise_state" where
  "all_settle [] = Fulfilled []"
| "all_settle (Rejected e # os) = Rejected e"
| "all_settle (Fulfilled v # os) =
     (case all_settle os of
        Fulfilled vs \<Rightarrow> Fulfilled (v # vs)
      | Rejected e \<Rightarrow> Rejected e
      | Pending \<Rightarrow> Pending)"
| "all_settle (Pending # os) =
     (case all_settle os of
        Rejected e \<Rightarrow> Rejected e
      | _ \<Rightarrow> Pending)"

text \<open>A pending \<^verbatim>\<open>Promise.all\<close> reacts to its members; a settled one stays as it is.\<close>

definition refresh_all :: "'v loader \<Rightarrow> 'v all_promise \<Rightarrow> 'v all_promise" where
  "refresh_all s a =
     (case a_state a of
        Pending \<Rightarrow> a\<lparr>a_state := all_settle (map (handle_outcome s) (members a))\<rparr>
      | _ \<Rightarrow> a)"

definition refresh :: "'v loader \<Rightarrow> 'v loader" where
  "refresh s = s\<lparr>alls := map (refresh_all s) (alls s)\<rparr>"

text \<open>Line 52: \<^verbatim>\<open>urls.map((url) => this.loadData(url, useCache))\<close>, from left to right.\<close>

fun loadEach :: "url list \<Rightarrow> bool \<Rightarrow> 'v loader \<Rightarrow> 'v handle list \<times> 'v loader" where
  "loadEach [] useCache s = ([], s)"
| "loadEach (u # us) useCache s =
     (let (h, s1) = loadData u useCache s;
          (hs, s2) = loadEach us useCache s1
      in (h # hs, s2))"

text \<open>Lines 51-54. The result names the promise of \<^verbatim>\<open>Promise.all\<close>.\<close>

definition loadMultiple :: "url list \<Rightarrow> bool \<Rightarrow> 'v loader \<Rightarrow> nat \<times> 'v loader" where
  "loadMultiple urls useCache s =
     (let (hs, s1) = loadEach urls useCache s
      in (length (alls s1),
          s1\<lparr>alls := alls s1 @
               [\<lparr>members = hs, a_state = all_settle (map (handle_outcome s1) hs)\<rparr>]\<rparr>))"

text \<open>
  Lines 56-63. \<^verbatim>\<open>preload\<close> calls \<^verbatim>\<open>loadMultiple(urls, true)\<close> and awaits its promise;
  \<open>preload_settle\<close> is the continuation: what it writes to the console and how the
  promise of \<^verbatim>\<open>preload\<close> itself settles, given the state of the awaited promise.
\<close>

definition preload :: "url list \<Rightarrow> 'v loader \<Rightarrow> nat \<times> 'v loader" where
  "preload urls s = loadMultiple urls True s"

fun preload_settle :: "'v list promise_state \<Rightarrow> (console_entry \<times> (js_error + unit)) option" where
  "preload_settle Pending = None"
| "preload_settle (Fulfilled vs) = Some (ConsoleLog ''Data preloaded successfully'', Inr ())"
| "preload_settle (Rejected e) = Some (ConsoleWarn ''Some data failed to preload:'' e, Inr ())"

subsection \<open>Runs\<close>

text \<open>
  What can happen to a loader: a call of one of its methods, the transport answering a
  request (which settles the promise of \<^verbatim>\<open>fetchData\<close>), and the suspended \<^verbatim>\<open>loadData\<close>
  call being resumed. The two are separate events, so that a run may place other calls
  between the moment a fetch has settled and the moment \<^verbatim>\<open>loadingStates\<close> and the cache
  are updated. After a promise has settled the pending \<^verbatim>\<open>Promise.all\<close> promises react.
  An event that cannot happen (an answer for a promise that has settled, the resumption of
  a call whose promise is pending or that has continued already) leaves the state as it
  is.
\<close>

datatype 'v event =
    Load url bool
  | LoadMultiple "url list" bool
  | Preload "url list"
  | ClearCache "url option"
  | Settle pid "'v transport_outcome"
  | Resume pid

fun step :: "'v event \<Rightarrow> 'v loader \<Rightarrow> 'v loader" where
  "step (Load u useCache) s = snd (loadData u useCache s)"
| "step (LoadMultiple urls useCache) s = snd (loadMultiple urls useCache s)"
| "step (Preload urls) s = snd (preload urls s)"
| "step (ClearCache arg) s = clearCache arg s"
| "step (Settle p t) s = refresh (settle p t s)"
| "step (Resume p) s = refresh (loadData_resume p s)"

fun run :: "'v event list \<Rightarrow> 'v loader \<Rightarrow> 'v loader" where
  "run [] s = s"
| "run (ev # evs) s = run evs (step ev s)"

subsection \<open>Invariants of a run\<close>

text \<open>
  What holds of every state a loader can reach: an entry of \<^verbatim>\<open>loadingStates\<close> names a
  promise of a fetch for that url whose \<^verbatim>\<open>loadData\<close> call has not continued yet; every
  such promise is the entry of its url, so at most one fetch is under way for a url; a
  call that has continued has settled its own promise as the promise of the fetch had
  settled; a fetch started by a caching call is for a url that is not cached; and the
  transport has been called once for each promise of \<^verbatim>\<open>fetchData\<close>.
\<close>

definition loader_inv :: "'v loader \<Rightarrow> bool" where
  "loader_inv s \<longleftrightarrow>
     (\<forall>u p. loadingStates s u = Some p \<longrightarrow>
        p < length (promises s) \<and> p_url (promises s ! p) = u \<and> \<not> p_resumed (promises s ! p)) \<and>
     (\<forall>p < length (promises s). \<not> p_resumed (promises s ! p) \<longrightarrow>
        loadingStates s (p_url (promises s ! p)) = Some p) \<and>
     (\<forall>p < length (promises s). p_resumed (promises s ! p) \<longrightarrow>
        p_result (promises s ! p) = p_state (promises s ! p)) \<and>
     (\<forall>u p. loadingStates s u = Some p \<longrightarrow> p_useCache (promises s ! p) \<longrightarrow> cache s u = None) \<and>
     requests s = map p_url (promises s)"

text \<open>
  \<open>resumable\<close>: the continuation of the call suspended on \<open>p\<close> can run.
  \<open>starts_fetch\<close>: a call \<^verbatim>\<open>loadData(u, useCache)\<close> reaches line 18.
  \<open>settles\<close>: the event is an answer of the transport for promise \<open>q\<close>.
\<close>

definition resumable :: "pid \<Rightarrow> 'v loader \<Rightarrow> bool" where
  "resumable p s \<longleftrightarrow>
     p < length (promises s) \<and> \<not> p_resumed (promises s ! p) \<and> p_state (promises s ! p) \<noteq> Pending"

definition starts_fetch :: "url \<Rightarrow> bool \<Rightarrow> 'v loader \<Rightarrow> bool" where
  "starts_fetch u useCache s \<longleftrightarrow> \<not> (useCache \<and> cache s u \<noteq> None) \<and> loadingStates s u = None"

fun settles :: "pid \<Rightarrow> 'v event \<Rightarrow> bool" where
  "settles q (Settle p t) = (p = q)"
| "settles q ev = False"

subsection \<open>Kinds of failure\<close>

text \<open>
  The two ways a fetch fails: the response is not \<^verbatim>\<open>ok\<close> (line 40), or the transport
  itself fails: \<^verbatim>\<open>fetch\<close> rejects, or \<^verbatim>\<open>response.json()\<close> rejects on a response that
  is \<^verbatim>\<open>ok\<close>.
\<close>

fun bad_status :: "'v transport_outcome \<Rightarrow> bool" where
  "bad_status (FetchRejected e) = False"
| "bad_status (FetchResponse ok status body) = (\<not> ok)"

fun transport_failure :: "'v transport_outcome \<Rightarrow> js_error option" where
  "transport_failure (FetchRejected e) = Some e"
| "transport_failure (FetchResponse ok status body) =
     (if ok then (case body of Inl e \<Rightarrow> Some e | Inr data \<Rightarrow> None) else None)"

fun status_of :: "'v transport_outcome \<Rightarrow> nat" where
  "status_of (FetchRejected e) = 0"
| "status_of (FetchResponse ok status body) = status"

text \<open>The error made at line 41, recognised by its class and the head of its message.\<close>

definition is_http_error :: "js_error \<Rightarrow> bool" where
  "is_http_error e \<longleftrightarrow> err_name e = ''Error'' \<and> prefix ''HTTP error! status: '' (err_message e)"

text \<open>
  The transport is the \<^verbatim>\<open>fetch\<close> of the browser, which the repository does not contain.
  Its own failures are values of the classes of the platform (\<^verbatim>\<open>TypeError\<close> for a network
  failure, \<^verbatim>\<open>SyntaxError\<close> for a body that is not JSON, a \<^verbatim>\<open>DOMException\<close> named
  \<^verbatim>\<open>AbortError\<close>); none of them has the name \<^verbatim>\<open>Error\<close>.
\<close>

definition platform_failure :: "js_error \<Rightarrow> bool" where
  "platform_failure e \<longleftrightarrow> err_name e \<noteq> ''Error''"

subsection \<open>Invariants of \<^verbatim>\<open>Promise.all\<close>\<close>

text \<open>
  A promise of \<^verbatim>\<open>Promise.all\<close> agrees with its members: pending while none is rejected
  and one is pending, fulfilled with their values in order, or rejected with the reason of
  a rejected member.
\<close>

definition all_ok :: "'v loader \<Rightarrow> 'v all_promise \<Rightarrow> bool" where
  "all_ok s a \<longleftrightarrow>
     (case a_state a of
        Pending \<Rightarrow> all_settle (map (handle_outcome s) (members a)) = Pending
      | Fulfilled vs \<Rightarrow> map (handle_outcome s) (members a) = map Fulfilled vs
      | Rejected e \<Rightarrow> Rejected e \<in> set (map (handle_outcome s) (members a)))"

definition alls_inv :: "'v loader \<Rightarrow> bool" where
  "alls_inv s \<longleftrightarrow> (\<forall>a \<in> set (alls s). all_ok s a)"

text \<open>A promise returned by \<^verbatim>\<open>loadData(u, useCache)\<close> belongs to the url \<open>u\<close>.\<close>

fun handle_of :: "'v loader \<Rightarrow> url \<Rightarrow> bool \<Rightarrow> 'v handle \<Rightarrow> bool" where
  "handle_of s u useCache (Served v) = (useCache \<and> cache s u = Some v)"
| "handle_of s u useCache (Joined p) = (p < length (promises s) \<and> p_url (promises s ! p) = u)"
| "handle_of s u useCache (Initiated p) = (p < length (promises s) \<and> p_url (promises s ! p) = u)"

section \<open>What the operations change\<close>

lemma p_resumed_simps [simp]:
  "p_resumed (fr\<lparr>p_state := x\<rparr>) = p_resumed fr"
  "p_resumed (fr\<lparr>p_result := r\<rparr>) = (r \<noteq> Pending)"
  "p_resumed \<lparr>p_url = u, p_useCache = c, p_state = x, p_result = r\<rparr> = (r \<noteq> Pending)"
  by (simp_all add: p_resumed_def)

lemma map_p_url_resumed:
  "p < length ps \<Longrightarrow> map p_url (ps[p := (ps ! p)\<lparr>p_result := b\<rparr>]) = map p_url ps"
  by (simp add: map_update list_update_same_conv)

lemma map_p_url_state:
  "p < length ps \<Longrightarrow> map p_url (ps[p := (ps ! p)\<lparr>p_state := b\<rparr>]) = map p_url ps"
  by (simp add: map_update list_update_same_conv)

lemma loadData_Served:
  "useCache \<Longrightarrow> cache s u = Some data \<Longrightarrow> loadData u useCache s = (Served data, s)"
  by (simp add: loadData_def)

lemma loadData_Joined:
  "\<not> (useCache \<and> cache s u \<noteq> None) \<Longrightarrow> loadingStates s u = Some p \<Longrightarrow>
   loadData u useCache s = (Joined p, s)"
  by (auto simp: loadData_def split: option.splits)

lemma loadData_Initiated:
  "\<not> (useCache \<and> cache s u \<noteq> None) \<Longrightarrow> loadingStates s u = None \<Longrightarrow>
   loadData u useCache s =
     (Initiated (length (promises s)),
      s\<lparr>promises := promises s @
           [\<lparr>p_url = u, p_useCache = useCache, p_state = Pending, p_result = Pending\<rparr>],
        requests := requests s @ [u],
        loadingStates := (loadingStates s)(u \<mapsto> length (promises s))\<rparr>)"
  by (auto simp: loadData_def fetchData_def split: option.splits)

lemma loadData_Joined_iff:
  "fst (loadData k useCache s) = Joined p \<longleftrightarrow>
   \<not> (useCache \<and> cache s k \<noteq> None) \<and> loadingStates s k = Some p"
  by (auto simp: loadData_def fetchData_def split: option.splits)

lemma loadData_Initiated_iff:
  "fst (loadData k useCache s) = Initiated p \<longleftrightarrow>
   starts_fetch k useCache s \<and> p = length (promises s)"
  by (auto simp: loadData_def fetchData_def starts_fetch_def split: option.splits)

lemma loadData_fields [simp]:
  "cache (snd (loadData u useCache s)) = cache s"
  "alls (snd (loadData u useCache s)) = alls s"
  by (auto simp: loadData_def fetchData_def split: option.splits)

lemma loadData_not_starts: "\<not> starts_fetch u useCache s \<Longrightarrow> snd (loadData u useCache s) = s"
  by (auto simp: starts_fetch_def loadData_def split: option.splits)

lemma loadData_starts:
  assumes "starts_fetch u useCache s"
  shows "fst (loadData u useCache s) = Initiated (length (promises s))"
    and "loadingStates (snd (loadData u useCache s)) = (loadingStates s)(u \<mapsto> length (promises s))"
    and "promises (snd (loadData u useCache s)) = promises s @
           [\<lparr>p_url = u, p_useCache = useCache, p_state = Pending, p_result = Pending\<rparr>]"
    and "requests (snd (loadData u useCache s)) = requests s @ [u]"
  using assms by (simp_all add: starts_fetch_def loadData_Initiated)

lemma loadData_promises:
  "promises (snd (loadData u useCache s)) =
     (if starts_fetch u useCache s
      then promises s @ [\<lparr>p_url = u, p_useCache = useCache, p_state = Pending, p_result = Pending\<rparr>]
      else promises s)"
  by (simp add: loadData_starts loadData_not_starts)

lemma loadData_requests:
  "requests (snd (loadData u useCache s)) =
     (if starts_fetch u useCache s then requests s @ [u] else requests s)"
  by (simp add: loadData_starts loadData_not_starts)

lemma loadData_loadingStates:
  "loadingStates (snd (loadData u useCache s)) =
     (if starts_fetch u useCache s then (loadingStates s)(u \<mapsto> length (promises s))
      else loadingStates s)"
  by (simp add: loadData_starts loadData_not_starts)

lemma loadData_new_fetch:
  assumes "loadingStates s k = None" "\<not> (useCache \<and> cache s k \<noteq> None)"
  shows "fst (loadData k useCache s) = Initiated (length (promises s)) \<and>
    requests (snd (loadData k useCache s)) = requests s @ [k]"
  using assms loadData_starts[of k useCache s] by (simp add: starts_fetch_def)

lemma loadEach_fields [simp]:
  "cache (snd (loadEach urls useCache s)) = cache s"
  "alls (snd (loadEach urls useCache s)) = alls s"
  by (induction urls arbitrary: s) (simp_all add: split_def Let_def)

lemma loadEach_length [simp]: "length (fst (loadEach urls useCache s)) = length urls"
  by (induction urls arbitrary: s) (simp_all add: split_def Let_def)

lemma loadMultiple_fields [simp]:
  "cache (snd (loadMultiple urls useCache s)) = cache s"
  "loadingStates (snd (loadMultiple urls useCache s)) = loadingStates (snd (loadEach urls useCache s))"
  "promises (snd (loadMultiple urls useCache s)) = promises (snd (loadEach urls useCache s))"
  "requests (snd (loadMultiple urls useCache s)) = requests (snd (loadEach urls useCache s))"
  "fst (loadMultiple urls useCache s) = length (alls s)"
  by (simp_all add: loadMultiple_def split_def Let_def)

lemma settle_Pending:
  "p < length (promises s) \<Longrightarrow> p_state (promises s ! p) = Pending \<Longrightarrow>
   settle p t s = s\<lparr>promises := (promises s)
                [p := (promises s ! p)
                   \<lparr>p_state := settled (snd (fetchData_settle (p_url (promises s ! p)) t))\<rparr>]\<rparr>"
  by (simp add: settle_def)

lemma settle_fields [simp]:
  "cache (settle p t s) = cache s" "loadingStates (settle p t s) = loadingStates s"
  "requests (settle p t s) = requests s" "alls (settle p t s) = alls s"
  "length (promises (settle p t s)) = length (promises s)"
  by (simp_all add: settle_def)

lemma settled_not_Pending [simp]: "settled r \<noteq> Pending"
  by (simp add: settled_def split: sum.splits)

lemma refresh_fields [simp]:
  "cache (refresh s) = cache s" "loadingStates (refresh s) = loadingStates s"
  "requests (refresh s) = requests s" "promises (refresh s) = promises s"
  "length (alls (refresh s)) = length (alls s)"
  by (simp_all add: refresh_def)

lemma clearCache_fields [simp]:
  "loadingStates (clearCache arg s) = loadingStates s" "promises (clearCache arg s) = promises s"
  "requests (clearCache arg s) = requests s" "alls (clearCache arg s) = alls s"
  by (simp_all add: clearCache_def split: option.splits)

text \<open>
  With the empty string as its argument \<^verbatim>\<open>clearCache\<close> takes the branch of the missing
  argument and empties the cache. The specification asks for keys that are not empty.
\<close>

lemma clearCache_empty_string: "cache (clearCache (Some []) s) = Map.empty"
  by (simp add: clearCache_def)

lemma loadData_resume_Pending:
  "p < length (promises s) \<Longrightarrow> p_state (promises s ! p) = Pending \<Longrightarrow> loadData_resume p s = s"
  by (simp add: loadData_resume_def)

lemma loadData_resume_disabled:
  "\<not> (p < length (promises s) \<and> \<not> p_resumed (promises s ! p)) \<Longrightarrow> loadData_resume p s = s"
  by (auto simp: loadData_resume_def)

lemma loadData_resume_settled:
  assumes "p < length (promises s)" "\<not> p_resumed (promises s ! p)"
    and "p_state (promises s ! p) \<noteq> Pending"
  shows "loadData_resume p s =
     s\<lparr>cache := (case p_state (promises s ! p) of
                   Fulfilled data \<Rightarrow>
                     if p_useCache (promises s ! p)
                     then (cache s)(p_url (promises s ! p) \<mapsto> data) else cache s
                 | _ \<Rightarrow> cache s),
       loadingStates := (loadingStates s)(p_url (promises s ! p) := None),
       promises := (promises s)[p := (promises s ! p)\<lparr>p_result := p_state (promises s ! p)\<rparr>]\<rparr>"
  using assms by (simp add: loadData_resume_def Let_def split: promise_state.splits)

lemma loadData_resume_not_resumable: "\<not> resumable p s \<Longrightarrow> loadData_resume p s = s"
  using loadData_resume_Pending[of p s] loadData_resume_disabled[of p s]
  by (auto simp: resumable_def)

lemma loadData_resume_cache:
  "cache (loadData_resume p s) =
     (if resumable p s \<and> p_useCache (promises s ! p)
      then (case p_state (promises s ! p) of
              Fulfilled data \<Rightarrow> (cache s)(p_url (promises s ! p) \<mapsto> data)
            | _ \<Rightarrow> cache s)
      else cache s)"
proof (cases "resumable p s")
  case True
  then show ?thesis
    by (simp add: resumable_def loadData_resume_settled split: promise_state.splits)
next
  case False
  then show ?thesis by (simp add: loadData_resume_not_resumable)
qed

lemma loadData_resume_loadingStates:
  "loadingStates (loadData_resume p s) =
     (if resumable p s then (loadingStates s)(p_url (promises s ! p) := None)
      else loadingStates s)"
proof (cases "resumable p s")
  case True
  then show ?thesis by (simp add: resumable_def loadData_resume_settled)
next
  case False
  then show ?thesis by (simp add: loadData_resume_not_resumable)
qed

lemma loadData_resume_promises:
  "promises (loadData_resume p s) =
     (if resumable p s then (promises s)[p := (promises s ! p)\<lparr>p_result := p_state (promises s ! p)\<rparr>]
      else promises s)"
proof (cases "resumable p s")
  case True
  then show ?thesis by (simp add: resumable_def loadData_resume_settled)
next
  case False
  then show ?thesis by (simp add: loadData_resume_not_resumable)
qed

lemma loadData_resume_fields [simp]:
  "requests (loadData_resume p s) = requests s" "alls (loadData_resume p s) = alls s"
  "length (promises (loadData_resume p s)) = length (promises s)"
  by (simp_all add: loadData_resume_def Let_def split: promise_state.splits)

lemma resumable_refresh [simp]: "resumable p (refresh s) = resumable p s"
  by (simp add: resumable_def)

section \<open>The loader keeps its invariant\<close>

lemma loader_inv_DataLoader: "loader_inv DataLoader"
  by (simp add: loader_inv_def DataLoader_def)

lemma loader_inv_marker:
  "loader_inv s \<Longrightarrow> loadingStates s u = Some p \<Longrightarrow>
   p < length (promises s) \<and> p_url (promises s ! p) = u \<and> \<not> p_resumed (promises s ! p)"
  unfolding loader_inv_def by blast

lemma loader_inv_awaited:
  "loader_inv s \<Longrightarrow> p < length (promises s) \<Longrightarrow> \<not> p_resumed (promises s ! p) \<Longrightarrow>
   loadingStates s (p_url (promises s ! p)) = Some p"
  unfolding loader_inv_def by blast

lemma loader_inv_result:
  "loader_inv s \<Longrightarrow> p < length (promises s) \<Longrightarrow> p_resumed (promises s ! p) \<Longrightarrow>
   p_result (promises s ! p) = p_state (promises s ! p)"
  unfolding loader_inv_def by blast

lemma loader_inv_resumed:
  "loader_inv s \<Longrightarrow> p < length (promises s) \<Longrightarrow> p_resumed (promises s ! p) \<Longrightarrow>
   p_state (promises s ! p) \<noteq> Pending"
  using loader_inv_result[of s p] by (auto simp: p_resumed_def)

lemma loader_inv_uncached:
  "loader_inv s \<Longrightarrow> loadingStates s u = Some p \<Longrightarrow> p_useCache (promises s ! p) \<Longrightarrow>
   cache s u = None"
  unfolding loader_inv_def by blast

lemma loader_inv_requests: "loader_inv s \<Longrightarrow> requests s = map p_url (promises s)"
  unfolding loader_inv_def by blast

lemma loader_inv_settle: "loader_inv s \<Longrightarrow> loader_inv (settle p t s)"
  unfolding loader_inv_def settle_def
  by (auto simp: nth_list_update map_p_url_state p_resumed_def)

lemma loader_inv_clearCache: "loader_inv s \<Longrightarrow> loader_inv (clearCache arg s)"
  unfolding loader_inv_def clearCache_def
  by (auto split: option.splits)

lemma loader_inv_loadData:
  assumes "loader_inv s"
  shows "loader_inv (snd (loadData u useCache s))"
proof (cases "useCache \<and> cache s u \<noteq> None")
  case True
  then show ?thesis using assms by (auto simp: loadData_Served)
next
  case nc: False
  show ?thesis
  proof (cases "loadingStates s u")
    case (Some p)
    then show ?thesis using assms nc by (simp add: loadData_Joined)
  next
    case None
    let ?n = "length (promises s)"
    let ?s = "s\<lparr>promises := promises s @
           [\<lparr>p_url = u, p_useCache = useCache, p_state = Pending, p_result = Pending\<rparr>],
        requests := requests s @ [u],
        loadingStates := (loadingStates s)(u \<mapsto> length (promises s))\<rparr>"
    from assms have
      m: "\<And>u p. loadingStates s u = Some p \<Longrightarrow>
            p < ?n \<and> p_url (promises s ! p) = u \<and> \<not> p_resumed (promises s ! p)" and
      a: "\<And>p. p < ?n \<Longrightarrow> \<not> p_resumed (promises s ! p) \<Longrightarrow>
            loadingStates s (p_url (promises s ! p)) = Some p" and
      r: "\<And>p. p < ?n \<Longrightarrow> p_resumed (promises s ! p) \<Longrightarrow>
            p_result (promises s ! p) = p_state (promises s ! p)" and
      c: "\<And>u p. loadingStates s u = Some p \<Longrightarrow> p_useCache (promises s ! p) \<Longrightarrow> cache s u = None" and
      q: "requests s = map p_url (promises s)"
      unfolding loader_inv_def by blast+
    have 1: "\<forall>v p. loadingStates ?s v = Some p \<longrightarrow>
        p < length (promises ?s) \<and> p_url (promises ?s ! p) = v \<and> \<not> p_resumed (promises ?s ! p)"
    proof (intro allI impI)
      fix v p assume h: "loadingStates ?s v = Some p"
      show "p < length (promises ?s) \<and> p_url (promises ?s ! p) = v \<and> \<not> p_resumed (promises ?s ! p)"
      proof (cases "v = u")
        case True
        with h have "p = ?n" by simp
        then show ?thesis using True by simp
      next
        case False
        with h have "loadingStates s v = Some p" by simp
        from m[OF this] show ?thesis by (simp add: nth_append)
      qed
    qed
    have 2: "\<forall>p < length (promises ?s). \<not> p_resumed (promises ?s ! p) \<longrightarrow>
        loadingStates ?s (p_url (promises ?s ! p)) = Some p"
    proof (intro allI impI)
      fix p assume h: "p < length (promises ?s)" "\<not> p_resumed (promises ?s ! p)"
      show "loadingStates ?s (p_url (promises ?s ! p)) = Some p"
      proof (cases "p < ?n")
        case True
        with h have "loadingStates s (p_url (promises s ! p)) = Some p"
          using a[of p] by (simp add: nth_append)
        moreover from this None have "p_url (promises s ! p) \<noteq> u" by auto
        ultimately show ?thesis using True by (simp add: nth_append)
      next
        case False
        with h have "p = ?n" by simp
        then show ?thesis by simp
      qed
    qed
    have 3: "\<forall>p < length (promises ?s). p_resumed (promises ?s ! p) \<longrightarrow>
        p_result (promises ?s ! p) = p_state (promises ?s ! p)"
      using r by (simp add: nth_append less_Suc_eq)
    have 4: "\<forall>v p. loadingStates ?s v = Some p \<longrightarrow> p_useCache (promises ?s ! p) \<longrightarrow> cache ?s v = None"
    proof (intro allI impI)
      fix v p assume h: "loadingStates ?s v = Some p" "p_useCache (promises ?s ! p)"
      show "cache ?s v = None"
      proof (cases "v = u")
        case True
        with h have "p = ?n" by simp
        with h have useCache by simp
        with nc True show ?thesis by simp
      next
        case False
        with h have l: "loadingStates s v = Some p" by simp
        with m[OF l] h c[OF l] show ?thesis by (simp add: nth_append)
      qed
    qed
    have 5: "requests ?s = map p_url (promises ?s)" using q by simp
    have "loader_inv ?s"
      unfolding loader_inv_def using 1 2 3 4 5 by blast
    then show ?thesis using nc None by (simp add: loadData_Initiated)
  qed
qed

lemma loader_inv_loadData_resume:
  assumes "loader_inv s"
  shows "loader_inv (loadData_resume p s)"
proof (cases "p < length (promises s) \<and> \<not> p_resumed (promises s ! p) \<and>
    p_state (promises s ! p) \<noteq> Pending")
  case False
  then have "loadData_resume p s = s"
    using loadData_resume_Pending[of p s] loadData_resume_disabled[of p s] by blast
  then show ?thesis using assms by simp
next
  case True
  then have en: "p < length (promises s)" "\<not> p_resumed (promises s ! p)"
    "p_state (promises s ! p) \<noteq> Pending" by simp_all
  let ?k = "p_url (promises s ! p)"
  let ?s = "loadData_resume p s"
  have L: "loadingStates ?s = (loadingStates s)(?k := None)"
    and P: "promises ?s = (promises s)[p := (promises s ! p)\<lparr>p_result := p_state (promises s ! p)\<rparr>]"
    and R: "requests ?s = requests s"
    by (simp_all add: loadData_resume_settled[OF en])
  have C: "\<And>v. v \<noteq> ?k \<Longrightarrow> cache ?s v = cache s v"
    by (simp add: loadData_resume_settled[OF en] split: promise_state.splits)
  have k: "loadingStates s ?k = Some p"
    using loader_inv_awaited[OF assms en(1,2)] .
  have other: "\<And>v q. loadingStates ?s v = Some q \<Longrightarrow>
      v \<noteq> ?k \<and> q \<noteq> p \<and> loadingStates s v = Some q"
  proof -
    fix v q assume h: "loadingStates ?s v = Some q"
    then have 1: "v \<noteq> ?k" and 2: "loadingStates s v = Some q"
      by (auto simp: L split: if_splits)
    from loader_inv_marker[OF assms 2] 1 have "q \<noteq> p" by auto
    with 1 2 show "v \<noteq> ?k \<and> q \<noteq> p \<and> loadingStates s v = Some q" by simp
  qed
  have 1: "\<forall>v q. loadingStates ?s v = Some q \<longrightarrow>
      q < length (promises ?s) \<and> p_url (promises ?s ! q) = v \<and> \<not> p_resumed (promises ?s ! q)"
  proof (intro allI impI)
    fix v q assume h: "loadingStates ?s v = Some q"
    from other[OF h] loader_inv_marker[OF assms, of v q]
    show "q < length (promises ?s) \<and> p_url (promises ?s ! q) = v \<and> \<not> p_resumed (promises ?s ! q)"
      by (simp add: P)
  qed
  have 2: "\<forall>q < length (promises ?s). \<not> p_resumed (promises ?s ! q) \<longrightarrow>
      loadingStates ?s (p_url (promises ?s ! q)) = Some q"
  proof (intro allI impI)
    fix q assume h: "q < length (promises ?s)" "\<not> p_resumed (promises ?s ! q)"
    then have qp: "q \<noteq> p" using en(1,3) by (auto simp: P)
    with h have q: "q < length (promises s)" "\<not> p_resumed (promises s ! q)"
      by (simp_all add: P)
    from loader_inv_awaited[OF assms q] k qp have "p_url (promises s ! q) \<noteq> ?k" by auto
    with loader_inv_awaited[OF assms q] qp
    show "loadingStates ?s (p_url (promises ?s ! q)) = Some q" by (simp add: L P)
  qed
  have 3: "\<forall>q < length (promises ?s). p_resumed (promises ?s ! q) \<longrightarrow>
      p_result (promises ?s ! q) = p_state (promises ?s ! q)"
    using loader_inv_result[OF assms] en by (auto simp: P nth_list_update)
  have 4: "\<forall>v q. loadingStates ?s v = Some q \<longrightarrow> p_useCache (promises ?s ! q) \<longrightarrow>
      cache ?s v = None"
  proof (intro allI impI)
    fix v q assume h: "loadingStates ?s v = Some q" "p_useCache (promises ?s ! q)"
    from other[OF h(1)] h(2) loader_inv_uncached[OF assms, of v q] C[of v]
    show "cache ?s v = None" by (simp add: P)
  qed
  have 5: "requests ?s = map p_url (promises ?s)"
    using loader_inv_requests[OF assms] en(1) by (simp add: R P map_p_url_resumed)
  show ?thesis unfolding loader_inv_def using 1 2 3 4 5 by blast
qed

lemma loader_inv_alls [simp]: "loader_inv (s\<lparr>alls := x\<rparr>) = loader_inv s"
  by (simp add: loader_inv_def)

lemma loader_inv_refresh: "loader_inv (refresh s) = loader_inv s"
  by (simp add: refresh_def)

lemma loader_inv_loadEach:
  "loader_inv s \<Longrightarrow> loader_inv (snd (loadEach urls useCache s))"
proof (induction urls arbitrary: s)
  case Nil
  then show ?case by simp
next
  case (Cons u us)
  from Cons.IH[OF loader_inv_loadData[OF Cons.prems, of u useCache]]
  show ?case by (simp add: split_def Let_def)
qed

lemma loader_inv_loadMultiple:
  "loader_inv s \<Longrightarrow> loader_inv (snd (loadMultiple urls useCache s))"
  using loader_inv_loadEach[of s urls useCache]
  by (simp add: loadMultiple_def split_def Let_def)

lemma loader_inv_step: "loader_inv s \<Longrightarrow> loader_inv (step ev s)"
  by (cases ev)
    (simp_all add: loader_inv_loadData loader_inv_loadMultiple preload_def loader_inv_clearCache
      loader_inv_settle loader_inv_loadData_resume loader_inv_refresh)

lemma loader_inv_run: "loader_inv s \<Longrightarrow> loader_inv (run evs s)"
  by (induction evs arbitrary: s) (simp_all add: loader_inv_step)

section \<open>Promises stay where they are\<close>

text \<open>New promises are appended; the old ones stay where they are.\<close>

lemma loadData_promises_nth:
  "q < length (promises s) \<Longrightarrow>
   q < length (promises (snd (loadData u useCache s))) \<and>
   promises (snd (loadData u useCache s)) ! q = promises s ! q"
  by (simp add: loadData_promises nth_append)

lemma loadEach_promises_nth:
  "q < length (promises s) \<Longrightarrow>
   q < length (promises (snd (loadEach urls useCache s))) \<and>
   promises (snd (loadEach urls useCache s)) ! q = promises s ! q"
proof (induction urls arbitrary: s)
  case Nil
  then show ?case by simp
next
  case (Cons u us)
  from loadData_promises_nth[OF Cons.prems, of u useCache]
  have "q < length (promises (snd (loadData u useCache s)))"
    and eq: "promises (snd (loadData u useCache s)) ! q = promises s ! q" by simp_all
  from Cons.IH[OF this(1)] eq show ?case by (simp add: split_def Let_def)
qed

lemma settle_promises_nth:
  "q < length (promises s) \<Longrightarrow>
   promises (settle p t s) ! q =
     (if p = q \<and> p_state (promises s ! q) = Pending
      then (promises s ! q)\<lparr>p_state := settled (snd (fetchData_settle (p_url (promises s ! q)) t))\<rparr>
      else promises s ! q)"
  by (simp add: settle_def nth_list_update)

lemma loadData_resume_promises_nth:
  "q < length (promises s) \<Longrightarrow>
   promises (loadData_resume p s) ! q =
     (if p = q \<and> resumable q s then (promises s ! q)\<lparr>p_result := p_state (promises s ! q)\<rparr> else promises s ! q)"
  by (cases "p = q") (auto simp: loadData_resume_promises nth_list_update)

lemma step_length_promises:
  "q < length (promises s) \<Longrightarrow> q < length (promises (step ev s))"
  by (cases ev) (simp_all add: loadData_promises_nth loadEach_promises_nth preload_def)

lemma step_promise_frame:
  assumes "q < length (promises s)"
  shows "p_url (promises (step ev s) ! q) = p_url (promises s ! q) \<and>
    p_useCache (promises (step ev s) ! q) = p_useCache (promises s ! q)"
  using assms
  by (cases ev)
    (simp_all add: loadData_promises_nth loadEach_promises_nth preload_def
      settle_promises_nth loadData_resume_promises_nth)

lemma step_promise_state:
  assumes "q < length (promises s)" "\<not> settles q ev \<or> p_state (promises s ! q) \<noteq> Pending"
  shows "p_state (promises (step ev s) ! q) = p_state (promises s ! q)"
  using assms
  by (cases ev)
    (auto simp: loadData_promises_nth loadEach_promises_nth preload_def
      settle_promises_nth loadData_resume_promises_nth)

lemma step_promise_result:
  assumes "q < length (promises s)" "ev \<noteq> Resume q \<or> p_resumed (promises s ! q)"
  shows "p_result (promises (step ev s) ! q) = p_result (promises s ! q)"
  using assms
  by (cases ev)
    (auto simp: loadData_promises_nth loadEach_promises_nth preload_def
      settle_promises_nth loadData_resume_promises_nth resumable_def)

lemma step_promise_resumed:
  assumes "q < length (promises s)" "ev \<noteq> Resume q \<or> p_resumed (promises s ! q)"
  shows "p_resumed (promises (step ev s) ! q) = p_resumed (promises s ! q)"
  using step_promise_result[OF assms] by (simp add: p_resumed_def)

lemma run_promise_frame:
  "q < length (promises s) \<Longrightarrow>
   q < length (promises (run evs s)) \<and>
   p_url (promises (run evs s) ! q) = p_url (promises s ! q) \<and>
   p_useCache (promises (run evs s) ! q) = p_useCache (promises s ! q)"
proof (induction evs arbitrary: s)
  case Nil
  then show ?case by simp
next
  case (Cons ev evs)
  from step_length_promises[OF Cons.prems, of ev] step_promise_frame[OF Cons.prems, of ev]
    Cons.IH[of "step ev s"]
  show ?case by simp
qed

lemma run_promise_state:
  "q < length (promises s) \<Longrightarrow> p_state (promises s ! q) \<noteq> Pending \<Longrightarrow>
   p_state (promises (run evs s) ! q) = p_state (promises s ! q)"
proof (induction evs arbitrary: s)
  case Nil
  then show ?case by simp
next
  case (Cons ev evs)
  from step_promise_state[of q s ev] Cons.prems
  have "p_state (promises (step ev s) ! q) = p_state (promises s ! q)" by simp
  with Cons.IH[OF step_length_promises[OF Cons.prems(1), of ev]] Cons.prems(2)
  show ?case by simp
qed

section \<open>While a fetch is under way\<close>

text \<open>A fetch under way for \<open>k\<close> keeps every call for \<open>k\<close> from reaching the transport.\<close>

lemma loadData_in_flight:
  assumes "loadingStates s k = Some p"
  shows "loadingStates (snd (loadData u useCache s)) k = Some p \<and>
    count_list (requests (snd (loadData u useCache s))) k = count_list (requests s) k"
proof (cases "starts_fetch u useCache s")
  case True
  then have "u \<noteq> k" using assms by (auto simp: starts_fetch_def)
  then show ?thesis using True assms by (simp add: loadData_starts)
next
  case False
  then show ?thesis using assms by (simp add: loadData_not_starts)
qed

lemma loadEach_in_flight:
  "loadingStates s k = Some p \<Longrightarrow>
   loadingStates (snd (loadEach urls useCache s)) k = Some p \<and>
   count_list (requests (snd (loadEach urls useCache s))) k = count_list (requests s) k"
proof (induction urls arbitrary: s)
  case Nil
  then show ?case by simp
next
  case (Cons u us)
  from loadData_in_flight[OF Cons.prems, of u useCache] Cons.IH[of "snd (loadData u useCache s)"]
  show ?case by (simp add: split_def Let_def)
qed

lemma step_in_flight:
  assumes inv: "loader_inv s" and k: "loadingStates s k = Some p" and ev: "ev \<noteq> Resume p"
  shows "loadingStates (step ev s) k = Some p \<and>
    count_list (requests (step ev s)) k = count_list (requests s) k"
proof (cases ev)
  case (Load u useCache)
  then show ?thesis using loadData_in_flight[OF k] by simp
next
  case (LoadMultiple urls useCache)
  then show ?thesis using loadEach_in_flight[OF k] by simp
next
  case (Preload urls)
  then show ?thesis using loadEach_in_flight[OF k] by (simp add: preload_def)
next
  case (ClearCache arg)
  then show ?thesis using k by simp
next
  case (Settle q t)
  then show ?thesis using k by simp
next
  case (Resume q)
  with ev have qp: "q \<noteq> p" by simp
  have "p_url (promises s ! q) \<noteq> k" if "resumable q s"
  proof
    assume "p_url (promises s ! q) = k"
    with loader_inv_awaited[OF inv, of q] that k have "q = p" by (simp add: resumable_def)
    with qp show False by simp
  qed
  then show ?thesis using Resume k by (auto simp: loadData_resume_loadingStates)
qed

lemma run_in_flight:
  "loader_inv s \<Longrightarrow> loadingStates s k = Some p \<Longrightarrow> Resume p \<notin> set evs \<Longrightarrow>
   loadingStates (run evs s) k = Some p \<and>
   count_list (requests (run evs s)) k = count_list (requests s) k"
proof (induction evs arbitrary: s)
  case Nil
  then show ?case by simp
next
  case (Cons ev evs)
  from Cons.prems have ev: "ev \<noteq> Resume p" and rest: "Resume p \<notin> set evs" by auto
  from step_in_flight[OF Cons.prems(1,2) ev] Cons.IH[OF loader_inv_step[OF Cons.prems(1)] _ rest]
  show ?case by simp
qed

text \<open>The only writers of the cache.\<close>

lemma step_cache:
  assumes "cache (step ev s) k \<noteq> cache s k"
  shows "(\<exists>arg. ev = ClearCache arg \<and> cache (step ev s) k = None) \<or>
    (\<exists>q v. ev = Resume q \<and> resumable q s \<and> p_url (promises s ! q) = k \<and>
       p_useCache (promises s ! q) \<and> p_state (promises s ! q) = Fulfilled v \<and>
       cache (step ev s) k = Some v)"
proof (cases ev)
  case (ClearCache arg)
  then show ?thesis using assms by (auto simp: clearCache_def split: option.splits if_splits)
next
  case (Resume q)
  then show ?thesis using assms
    by (auto simp: loadData_resume_cache split: if_splits promise_state.splits)
qed (use assms in \<open>simp_all add: preload_def\<close>)

lemma step_in_flight_uncached:
  assumes inv: "loader_inv s" and k: "loadingStates s k = Some p" and ev: "ev \<noteq> Resume p"
    and c: "cache s k = None"
  shows "cache (step ev s) k = None"
proof (rule ccontr)
  assume n: "cache (step ev s) k \<noteq> None"
  with c have "cache (step ev s) k \<noteq> cache s k" by simp
  from step_cache[OF this] n obtain q where
    q: "ev = Resume q" "resumable q s" "p_url (promises s ! q) = k" by auto
  with loader_inv_awaited[OF inv, of q] k have "q = p" by (simp add: resumable_def)
  with q ev show False by simp
qed

lemma run_in_flight_uncached:
  "loader_inv s \<Longrightarrow> loadingStates s k = Some p \<Longrightarrow> Resume p \<notin> set evs \<Longrightarrow>
   cache s k = None \<Longrightarrow> cache (run evs s) k = None"
proof (induction evs arbitrary: s)
  case Nil
  then show ?case by simp
next
  case (Cons ev evs)
  from Cons.prems have ev: "ev \<noteq> Resume p" and rest: "Resume p \<notin> set evs" by auto
  from step_in_flight[OF Cons.prems(1,2) ev] step_in_flight_uncached[OF Cons.prems(1,2) ev Cons.prems(4)]
    Cons.IH[OF loader_inv_step[OF Cons.prems(1)] _ rest]
  show ?case by simp
qed

lemma step_Resume_in_flight:
  assumes inv: "loader_inv s" and k: "loadingStates s k = Some p"
    and st: "p_state (promises s ! p) \<noteq> Pending"
  shows "loadingStates (step (Resume p) s) k = None"
    and "requests (step (Resume p) s) = requests s"
    and "cache (step (Resume p) s) =
      (case p_state (promises s ! p) of
         Fulfilled v \<Rightarrow> if p_useCache (promises s ! p) then (cache s)(k \<mapsto> v) else cache s
       | _ \<Rightarrow> cache s)"
    and "handle_outcome (step (Resume p) s) (Initiated p) = p_state (promises s ! p)"
    and "handle_outcome (step (Resume p) s) (Joined p) = p_state (promises s ! p)"
proof -
  from loader_inv_marker[OF inv k]
  have p: "p < length (promises s)" "p_url (promises s ! p) = k" "\<not> p_resumed (promises s ! p)"
    by simp_all
  with st have r: "resumable p s" by (simp add: resumable_def)
  show "loadingStates (step (Resume p) s) k = None"
    using r p by (simp add: loadData_resume_loadingStates)
  show "requests (step (Resume p) s) = requests s" by simp
  show "cache (step (Resume p) s) =
      (case p_state (promises s ! p) of
         Fulfilled v \<Rightarrow> if p_useCache (promises s ! p) then (cache s)(k \<mapsto> v) else cache s
       | _ \<Rightarrow> cache s)"
    using r p by (simp add: loadData_resume_cache split: promise_state.splits)
  show "handle_outcome (step (Resume p) s) (Initiated p) = p_state (promises s ! p)"
    using r p by (simp add: loadData_resume_promises)
  show "handle_outcome (step (Resume p) s) (Joined p) = p_state (promises s ! p)"
    using r p by (simp add: loadData_resume_promises)
qed

lemma step_cache_kept:
  assumes inv: "loader_inv s" and c: "cache s k = Some v" and ev: "\<forall>arg. ev \<noteq> ClearCache arg"
  shows "cache (step ev s) k = Some v"
proof (rule ccontr)
  assume "cache (step ev s) k \<noteq> Some v"
  with c have "cache (step ev s) k \<noteq> cache s k" by simp
  from step_cache[OF this] ev obtain q where
    q: "resumable q s" "p_url (promises s ! q) = k" "p_useCache (promises s ! q)" by auto
  with loader_inv_awaited[OF inv, of q] have "loadingStates s k = Some q"
    by (simp add: resumable_def)
  from loader_inv_uncached[OF inv this q(3)] c show False by simp
qed

lemma run_cache_kept:
  "loader_inv s \<Longrightarrow> cache s k = Some v \<Longrightarrow> \<forall>arg. ClearCache arg \<notin> set evs \<Longrightarrow>
   cache (run evs s) k = Some v"
proof (induction evs arbitrary: s)
  case Nil
  then show ?case by simp
next
  case (Cons ev evs)
  from Cons.prems(3) have ev: "\<forall>arg. ev \<noteq> ClearCache arg"
    and rest: "\<forall>arg. ClearCache arg \<notin> set evs" by auto
  from Cons.IH[OF loader_inv_step[OF Cons.prems(1)] step_cache_kept[OF Cons.prems(1,2) ev] rest]
  show ?case by simp
qed

text \<open>
  A fetch started by a caching call: from the moment that call has continued after a
  success, the value is in the cache, until the cache is cleared.
\<close>

lemma step_cached_after_resume:
  assumes inv: "loader_inv s" and p: "p < length (promises s)"
    and u: "p_url (promises s ! p) = k" "p_useCache (promises s ! p)"
    and g: "p_resumed (promises s ! p) \<and> p_state (promises s ! p) = Fulfilled v \<longrightarrow>
      cache s k = Some v"
    and ev: "\<forall>arg. ev \<noteq> ClearCache arg"
    and after: "p_resumed (promises (step ev s) ! p)" "p_state (promises (step ev s) ! p) = Fulfilled v"
  shows "cache (step ev s) k = Some v"
proof (cases "p_resumed (promises s ! p)")
  case True
  from loader_inv_resumed[OF inv p True] step_promise_state[OF p, of ev] after(2)
  have "p_state (promises s ! p) = Fulfilled v" by simp
  with True g have "cache s k = Some v" by simp
  from step_cache_kept[OF inv this ev] show ?thesis .
next
  case False
  with step_promise_resumed[OF p, of ev] after(1) have e: "ev = Resume p" by auto
  have st: "p_state (promises s ! p) = Fulfilled v"
    using after(2) p by (simp add: e loadData_resume_promises_nth split: if_splits)
  with False p have "resumable p s" by (simp add: resumable_def)
  then show ?thesis using st u by (simp add: e loadData_resume_cache)
qed

lemma run_cached_after_resume:
  "loader_inv s \<Longrightarrow> p < length (promises s) \<Longrightarrow>
   p_url (promises s ! p) = k \<Longrightarrow> p_useCache (promises s ! p) \<Longrightarrow>
   (p_resumed (promises s ! p) \<and> p_state (promises s ! p) = Fulfilled v \<longrightarrow> cache s k = Some v) \<Longrightarrow>
   \<forall>arg. ClearCache arg \<notin> set evs \<Longrightarrow>
   p_resumed (promises (run evs s) ! p) \<Longrightarrow> p_state (promises (run evs s) ! p) = Fulfilled v \<Longrightarrow>
   cache (run evs s) k = Some v"
proof (induction evs arbitrary: s)
  case Nil
  then show ?case by simp
next
  case (Cons ev evs)
  from Cons.prems(6) have ev: "\<forall>arg. ev \<noteq> ClearCache arg"
    and rest: "\<forall>arg. ClearCache arg \<notin> set evs" by auto
  let ?s = "step ev s"
  have inv': "loader_inv ?s" by (rule loader_inv_step[OF Cons.prems(1)])
  have p': "p < length (promises ?s)" by (rule step_length_promises[OF Cons.prems(2)])
  from step_promise_frame[OF Cons.prems(2), of ev] Cons.prems(3,4)
  have u': "p_url (promises ?s ! p) = k" "p_useCache (promises ?s ! p)" by simp_all
  have g': "p_resumed (promises ?s ! p) \<and> p_state (promises ?s ! p) = Fulfilled v \<longrightarrow>
      cache ?s k = Some v"
    using step_cached_after_resume[OF Cons.prems(1,2,3,4,5) ev] by blast
  from Cons.IH[OF inv' p' u' g' rest] Cons.prems(7,8) show ?case by simp
qed

section \<open>Outcomes\<close>

text \<open>A promise settles once: what a caller has observed stays.\<close>

lemma handle_outcome_step:
  assumes "handle_outcome s h \<noteq> Pending"
  shows "handle_outcome (step ev s) h = handle_outcome s h"
proof (cases h)
  case (Served v)
  then show ?thesis by simp
next
  case (Joined q)
  with assms have q: "q < length (promises s)" "p_resumed (promises s ! q)"
    "p_state (promises s ! q) \<noteq> Pending"
    by (auto split: if_splits)
  with step_length_promises[OF q(1), of ev] step_promise_state[of q s ev]
    step_promise_resumed[of q s ev]
  show ?thesis using Joined by simp
next
  case (Initiated q)
  with assms have q: "q < length (promises s)" "p_resumed (promises s ! q)"
    by (auto simp: p_resumed_def split: if_splits)
  with step_length_promises[OF q(1), of ev] step_promise_result[of q s ev]
  show ?thesis using Initiated by simp
qed

text \<open>
  The call that started a fetch and the calls that joined it: their promises are pending
  until the starting call has continued, and have the same state afterwards.
\<close>

lemma handle_outcome_Initiated_Joined:
  assumes "loader_inv s"
  shows "handle_outcome s (Initiated p) = handle_outcome s (Joined p)"
proof (cases "p < length (promises s) \<and> p_resumed (promises s ! p)")
  case True
  with loader_inv_result[OF assms, of p] show ?thesis by simp
next
  case False
  then show ?thesis by (auto simp: p_resumed_def)
qed

lemma handle_outcome_in_flight:
  assumes "loader_inv s" "loadingStates s k = Some p"
  shows "handle_outcome s (Initiated p) = Pending" "handle_outcome s (Joined p) = Pending"
  using loader_inv_marker[OF assms] by (simp_all add: p_resumed_def)

lemma handle_outcome_run:
  "handle_outcome s h \<noteq> Pending \<Longrightarrow> handle_outcome (run evs s) h = handle_outcome s h"
proof (induction evs arbitrary: s)
  case Nil
  then show ?case by simp
next
  case (Cons ev evs)
  from handle_outcome_step[OF Cons.prems, of ev] Cons.prems Cons.IH[of "step ev s"]
  show ?case by simp
qed

text \<open>Calls and cache clearing leave every outcome as it is.\<close>

lemma handle_outcome_promises:
  "promises s' = promises s \<Longrightarrow> handle_outcome s' = handle_outcome s"
proof
  fix h assume "promises s' = promises s"
  then show "handle_outcome s' h = handle_outcome s h" by (cases h) simp_all
qed

lemma handle_outcome_refresh [simp]: "handle_outcome (refresh s) = handle_outcome s"
  by (rule handle_outcome_promises) simp

lemma handle_outcome_loadData [simp]:
  "handle_outcome (snd (loadData u useCache s)) = handle_outcome s"
proof
  fix h
  show "handle_outcome (snd (loadData u useCache s)) h = handle_outcome s h"
    by (cases h) (auto simp: loadData_promises nth_append less_Suc_eq)
qed

lemma handle_outcome_loadEach [simp]:
  "handle_outcome (snd (loadEach urls useCache s)) = handle_outcome s"
  by (induction urls arbitrary: s) (simp_all add: split_def Let_def)

lemma handle_outcome_loadMultiple [simp]:
  "handle_outcome (snd (loadMultiple urls useCache s)) = handle_outcome s"
  using handle_outcome_promises[of "snd (loadMultiple urls useCache s)" "snd (loadEach urls useCache s)"]
  by simp

lemma handle_outcome_clearCache [simp]: "handle_outcome (clearCache arg s) = handle_outcome s"
  by (rule handle_outcome_promises) simp





section \<open>Failures of the transport\<close>

lemma decimal_nonempty: "decimal n \<noteq> []"
  by (subst decimal.simps) simp

lemma digit_char_inj: "a < 10 \<Longrightarrow> b < 10 \<Longrightarrow> digit_char a = digit_char b \<Longrightarrow> a = b"
proof -
  assume a: "a < 10" and b: "b < 10" and e: "digit_char a = digit_char b"
  from e have "of_char (char_of (48 + a) :: char) = (of_char (char_of (48 + b) :: char) :: nat)"
    by (simp add: digit_char_def)
  with a b show "a = b" by (simp add: of_char_of)
qed

lemma decimal_inj: "decimal n = decimal m \<Longrightarrow> n = m"
proof (induction n arbitrary: m rule: decimal.induct)
  case (1 n)
  show ?case
  proof (cases "n < 10")
    case small: True
    show ?thesis
    proof (cases "m < 10")
      case True
      with small "1.prems" have "digit_char n = digit_char m"
        by (simp add: decimal.simps[of n] decimal.simps[of m])
      with small True show ?thesis by (rule digit_char_inj)
    next
      case False
      with small "1.prems" have "[digit_char n] = decimal (m div 10) @ [digit_char (m mod 10)]"
        by (simp add: decimal.simps[of n] decimal.simps[of m])
      then have "decimal (m div 10) = []" by (metis append1_eq_conv append_Nil)
      with decimal_nonempty show ?thesis by blast
    qed
  next
    case big: False
    show ?thesis
    proof (cases "m < 10")
      case True
      with big "1.prems" have "decimal (n div 10) @ [digit_char (n mod 10)] = [digit_char m]"
        by (simp add: decimal.simps[of n] decimal.simps[of m])
      then have "decimal (n div 10) = []" by (metis append1_eq_conv append_Nil)
      with decimal_nonempty show ?thesis by blast
    next
      case False
      with big "1.prems"
      have "decimal (n div 10) @ [digit_char (n mod 10)] = decimal (m div 10) @ [digit_char (m mod 10)]"
        by (simp add: decimal.simps[of n] decimal.simps[of m])
      then have d: "decimal (n div 10) = decimal (m div 10)"
        and c: "digit_char (n mod 10) = digit_char (m mod 10)" by simp_all
      from "1.IH"[OF big d] have q: "n div 10 = m div 10" .
      from digit_char_inj[OF _ _ c] have r: "n mod 10 = m mod 10" by simp
      from q r show ?thesis by (metis div_mult_mod_eq)
    qed
  qed
qed

lemma http_error_inj: "http_error a = http_error b \<Longrightarrow> a = b"
  by (simp add: http_error_def decimal_inj)

lemma is_http_error_http_error: "is_http_error (http_error status)"
  by (simp add: is_http_error_def http_error_def)

lemma platform_failure_not_http: "platform_failure e \<Longrightarrow> \<not> is_http_error e"
  by (simp add: platform_failure_def is_http_error_def)

lemma fetchData_settle_result:
  "snd (fetchData_settle u t) =
     (if bad_status t then Inl (http_error (status_of t))
      else case transport_failure t of
        Some e \<Rightarrow> Inl e
      | None \<Rightarrow> (case t of FetchResponse ok status (Inr data) \<Rightarrow> Inr data))"
  by (cases t) (auto split: sum.splits)

lemma fetchData_settle_fails:
  "(\<exists>e. settled (snd (fetchData_settle u t)) = Rejected e) \<longleftrightarrow>
     bad_status t \<or> transport_failure t \<noteq> None"
  by (cases t) (auto simp: settled_def split: sum.splits)

lemma fetchData_settle_bad_status:
  "bad_status t \<Longrightarrow> settled (snd (fetchData_settle u t)) = Rejected (http_error (status_of t))"
  by (cases t) (auto simp: settled_def)

lemma fetchData_settle_transport_failure:
  "transport_failure t = Some e \<Longrightarrow> settled (snd (fetchData_settle u t)) = Rejected e"
  by (cases t) (auto simp: settled_def split: sum.splits if_splits)

lemma fetchData_settle_distinguished:
  assumes "\<forall>e. transport_failure t = Some e \<longrightarrow> platform_failure e"
    and "settled (snd (fetchData_settle u t)) = Rejected e"
  shows "is_http_error e \<longleftrightarrow> bad_status t"
proof (cases "bad_status t")
  case True
  with fetchData_settle_bad_status[OF True, of u] assms(2) show ?thesis
    by (simp add: is_http_error_http_error)
next
  case False
  with fetchData_settle_fails[of u t] assms(2) obtain e' where e': "transport_failure t = Some e'"
    by auto
  from fetchData_settle_transport_failure[OF e', of u] assms(2) have "e' = e" by simp
  with e' assms(1) have "platform_failure e" by simp
  with False show ?thesis by (simp add: platform_failure_not_http)
qed

section \<open>\<^verbatim>\<open>Promise.all\<close>\<close>

lemma all_settle_map_Fulfilled: "all_settle (map Fulfilled vs) = Fulfilled vs"
  by (induction vs) simp_all

lemma all_settle_Fulfilled_only: "all_settle os = Fulfilled vs \<Longrightarrow> os = map Fulfilled vs"
proof (induction os arbitrary: vs)
  case Nil
  then show ?case by simp
next
  case (Cons x os)
  show ?case
  proof (cases x)
    case Pending
    with Cons.prems show ?thesis by (simp split: promise_state.splits)
  next
    case (Fulfilled v)
    with Cons.prems obtain ws where ws: "all_settle os = Fulfilled ws" "vs = v # ws"
      by (auto split: promise_state.splits)
    from Cons.IH[OF ws(1)] ws(2) Fulfilled show ?thesis by simp
  next
    case (Rejected e)
    with Cons.prems show ?thesis by simp
  qed
qed

lemma all_settle_Fulfilled: "all_settle os = Fulfilled vs \<longleftrightarrow> os = map Fulfilled vs"
  using all_settle_Fulfilled_only all_settle_map_Fulfilled by blast

lemma all_settle_Rejected:
  "all_settle os = Rejected e \<longleftrightarrow>
     (\<exists>i < length os. os ! i = Rejected e \<and> (\<forall>j < i. \<forall>e'. os ! j \<noteq> Rejected e'))"
proof (induction os rule: all_settle.induct)
  case 1
  then show ?case by simp
next
  case (2 e' os)
  show ?case
  proof
    assume "all_settle (Rejected e' # os) = Rejected e"
    then have "e' = e" by simp
    then show "\<exists>i<length (Rejected e' # os). (Rejected e' # os) ! i = Rejected e \<and>
        (\<forall>j<i. \<forall>e''. (Rejected e' # os) ! j \<noteq> Rejected e'')"
      by (intro exI[of _ 0]) simp
  next
    assume "\<exists>i<length (Rejected e' # os). (Rejected e' # os) ! i = Rejected e \<and>
        (\<forall>j<i. \<forall>e''. (Rejected e' # os) ! j \<noteq> Rejected e'')"
    then obtain i where i: "(Rejected e' # os) ! i = Rejected e"
      "\<forall>j<i. \<forall>e''. (Rejected e' # os) ! j \<noteq> Rejected e''" by blast
    have "i = 0"
    proof (rule ccontr)
      assume "i \<noteq> 0"
      then have "0 < i" by simp
      with i(2) show False by auto
    qed
    with i(1) show "all_settle (Rejected e' # os) = Rejected e" by simp
  qed
next
  case (3 v os)
  have "all_settle (Fulfilled v # os) = Rejected e \<longleftrightarrow> all_settle os = Rejected e"
    by (simp split: promise_state.splits)
  also have "\<dots> \<longleftrightarrow> (\<exists>i<length os. os ! i = Rejected e \<and> (\<forall>j<i. \<forall>e'. os ! j \<noteq> Rejected e'))"
    by (rule 3)
  also have "\<dots> \<longleftrightarrow> (\<exists>i<length (Fulfilled v # os). (Fulfilled v # os) ! i = Rejected e \<and>
        (\<forall>j<i. \<forall>e'. (Fulfilled v # os) ! j \<noteq> Rejected e'))"
    (is "?l \<longleftrightarrow> ?r")
  proof
    assume ?l
    then obtain i where "i < length os" "os ! i = Rejected e" "\<forall>j<i. \<forall>e'. os ! j \<noteq> Rejected e'"
      by blast
    then show ?r by (intro exI[of _ "Suc i"]) (auto simp: nth_Cons split: nat.splits)
  next
    assume ?r
    then obtain i where i: "i < length (Fulfilled v # os)" "(Fulfilled v # os) ! i = Rejected e"
      "\<forall>j<i. \<forall>e'. (Fulfilled v # os) ! j \<noteq> Rejected e'" by blast
    then obtain i' where i': "i = Suc i'" by (cases i) auto
    have "\<forall>j<i'. \<forall>e'. os ! j \<noteq> Rejected e'"
    proof (intro allI impI)
      fix j e' assume "j < i'"
      then have "Suc j < i" by (simp add: i')
      with i(3) show "os ! j \<noteq> Rejected e'" by fastforce
    qed
    with i(1,2) show ?l by (intro exI[of _ i']) (simp add: i')
  qed
  finally show ?case .
next
  case (4 os)
  have "all_settle (Pending # os) = Rejected e \<longleftrightarrow> all_settle os = Rejected e"
    by (simp split: promise_state.splits)
  also have "\<dots> \<longleftrightarrow> (\<exists>i<length os. os ! i = Rejected e \<and> (\<forall>j<i. \<forall>e'. os ! j \<noteq> Rejected e'))"
    by (rule 4)
  also have "\<dots> \<longleftrightarrow> (\<exists>i<length (Pending # os). (Pending # os) ! i = Rejected e \<and>
        (\<forall>j<i. \<forall>e'. (Pending # os) ! j \<noteq> Rejected e'))"
    (is "?l \<longleftrightarrow> ?r")
  proof
    assume ?l
    then obtain i where "i < length os" "os ! i = Rejected e" "\<forall>j<i. \<forall>e'. os ! j \<noteq> Rejected e'"
      by blast
    then show ?r by (intro exI[of _ "Suc i"]) (auto simp: nth_Cons split: nat.splits)
  next
    assume ?r
    then obtain i where i: "i < length (Pending # os)" "(Pending # os) ! i = Rejected e"
      "\<forall>j<i. \<forall>e'. (Pending # os) ! j \<noteq> Rejected e'" by blast
    then obtain i' where i': "i = Suc i'" by (cases i) auto
    have "\<forall>j<i'. \<forall>e'. os ! j \<noteq> Rejected e'"
    proof (intro allI impI)
      fix j e' assume "j < i'"
      then have "Suc j < i" by (simp add: i')
      with i(3) show "os ! j \<noteq> Rejected e'" by fastforce
    qed
    with i(1,2) show ?l by (intro exI[of _ i']) (simp add: i')
  qed
  finally show ?case .
qed

lemma all_settle_Rejected_mem: "all_settle os = Rejected e \<Longrightarrow> Rejected e \<in> set os"
  unfolding all_settle_Rejected by (metis nth_mem)

lemma all_settle_some_Rejected: "Rejected e \<in> set os \<Longrightarrow> \<exists>e'. all_settle os = Rejected e'"
proof (induction os)
  case Nil
  then show ?case by simp
next
  case (Cons x os)
  show ?case
  proof (cases x)
    case Pending
    with Cons show ?thesis by (auto split: promise_state.splits)
  next
    case (Fulfilled v)
    with Cons show ?thesis by (auto split: promise_state.splits)
  next
    case (Rejected e')
    then show ?thesis by simp
  qed
qed

lemma all_settle_Pending_mem: "all_settle os = Pending \<Longrightarrow> Pending \<in> set os"
proof (induction os)
  case Nil
  then show ?case by simp
next
  case (Cons x os)
  show ?case
  proof (cases x)
    case Pending
    then show ?thesis by simp
  next
    case (Fulfilled v)
    with Cons.prems have "all_settle os = Pending" by (simp split: promise_state.splits)
    with Cons.IH show ?thesis by simp
  next
    case (Rejected e)
    with Cons.prems show ?thesis by simp
  qed
qed

lemma all_settle_Pending:
  "all_settle os = Pending \<longleftrightarrow> (\<forall>e. Rejected e \<notin> set os) \<and> Pending \<in> set os"
proof
  assume p: "all_settle os = Pending"
  have "Rejected e \<notin> set os" for e
    using all_settle_some_Rejected[of e os] p by auto
  with all_settle_Pending_mem[OF p]
  show "(\<forall>e. Rejected e \<notin> set os) \<and> Pending \<in> set os" by blast
next
  assume a: "(\<forall>e. Rejected e \<notin> set os) \<and> Pending \<in> set os"
  show "all_settle os = Pending"
  proof (cases "all_settle os")
    case Pending
    then show ?thesis .
  next
    case (Fulfilled vs)
    with a all_settle_Fulfilled_only[OF Fulfilled] show ?thesis by auto
  next
    case (Rejected e)
    with a all_settle_Rejected_mem[OF Rejected] show ?thesis by auto
  qed
qed

lemma alls_loadMultiple:
  "alls (snd (loadMultiple urls useCache s)) = alls s @
     [\<lparr>members = fst (loadEach urls useCache s),
       a_state = all_settle (map (handle_outcome s) (fst (loadEach urls useCache s)))\<rparr>]"
  by (simp add: loadMultiple_def split_def Let_def)

text \<open>The promises of \<^verbatim>\<open>Promise.all\<close> follow their members.\<close>

lemma all_ok_new: "all_ok s \<lparr>members = hs, a_state = all_settle (map (handle_outcome s) hs)\<rparr>"
  by (auto simp: all_ok_def all_settle_Fulfilled dest: all_settle_Rejected_mem
      split: promise_state.splits)

lemma all_ok_same:
  "handle_outcome s' = handle_outcome s \<Longrightarrow> all_ok s' a = all_ok s a"
  unfolding all_ok_def by (cases "a_state a") simp_all

lemma all_ok_refresh_all:
  assumes ok: "all_ok s a"
    and mono: "\<And>h. handle_outcome s h \<noteq> Pending \<Longrightarrow> handle_outcome s' h = handle_outcome s h"
  shows "all_ok s' (refresh_all s' a)"
proof (cases "a_state a")
  case Pending
  then have "refresh_all s' a = a\<lparr>a_state := all_settle (map (handle_outcome s') (members a))\<rparr>"
    by (simp add: refresh_all_def)
  then show ?thesis
    by (auto simp: all_ok_def all_settle_Fulfilled dest: all_settle_Rejected_mem
        split: promise_state.splits)
next
  case (Fulfilled vs)
  with ok have m: "map (handle_outcome s) (members a) = map Fulfilled vs" by (simp add: all_ok_def)
  have "handle_outcome s' h = handle_outcome s h" if "h \<in> set (members a)" for h
  proof -
    from that m have "handle_outcome s h \<in> set (map Fulfilled vs)" by (metis image_eqI set_map)
    then have "handle_outcome s h \<noteq> Pending" by auto
    then show ?thesis by (rule mono)
  qed
  then have "map (handle_outcome s') (members a) = map (handle_outcome s) (members a)" by simp
  with m Fulfilled show ?thesis by (simp add: all_ok_def refresh_all_def)
next
  case (Rejected e)
  with ok obtain h where h: "h \<in> set (members a)" "handle_outcome s h = Rejected e"
    by (auto simp: all_ok_def)
  with mono[of h] have "handle_outcome s' h = Rejected e" by simp
  with h(1) Rejected show ?thesis by (force simp: all_ok_def refresh_all_def)
qed

lemma refresh_all_same:
  "handle_outcome s' = handle_outcome s \<Longrightarrow> refresh_all s' = refresh_all s"
proof
  fix a assume "handle_outcome s' = handle_outcome s"
  then show "refresh_all s' a = refresh_all s a"
    unfolding refresh_all_def by (cases "a_state a") simp_all
qed

lemma alls_refresh: "alls (refresh s) = map (refresh_all (refresh s)) (alls s)"
proof -
  have "refresh_all (refresh s) = refresh_all s" by (rule refresh_all_same) simp
  then show ?thesis by (simp add: refresh_def)
qed

lemma alls_inv_DataLoader: "alls_inv DataLoader"
  by (simp add: alls_inv_def DataLoader_def)

lemma alls_inv_step: "alls_inv s \<Longrightarrow> alls_inv (step ev s)"
proof (cases ev)
  case (Load u useCache)
  assume "alls_inv s"
  then show ?thesis using Load all_ok_same[of "step ev s" s] by (simp add: alls_inv_def)
next
  case (LoadMultiple urls useCache)
  assume "alls_inv s"
  then show ?thesis
    using LoadMultiple all_ok_same[of "step ev s" s] all_ok_new[of "step ev s"]
    by (auto simp: alls_inv_def alls_loadMultiple)
next
  case (Preload urls)
  assume "alls_inv s"
  then show ?thesis
    using Preload all_ok_same[of "step ev s" s] all_ok_new[of "step ev s"]
    by (auto simp: alls_inv_def alls_loadMultiple preload_def)
next
  case (ClearCache arg)
  assume "alls_inv s"
  then show ?thesis using ClearCache all_ok_same[of "step ev s" s] by (simp add: alls_inv_def)
next
  case (Settle p t)
  assume i: "alls_inv s"
  have "all_ok (step ev s) (refresh_all (step ev s) a)" if "a \<in> set (alls s)" for a
  proof (rule all_ok_refresh_all[of s])
    from that i show "all_ok s a" by (simp add: alls_inv_def)
  qed (rule handle_outcome_step)
  moreover have "alls (step ev s) = map (refresh_all (step ev s)) (alls s)"
    using Settle alls_refresh[of "settle p t s"] by simp
  ultimately show ?thesis by (auto simp: alls_inv_def)
next
  case (Resume p)
  assume i: "alls_inv s"
  have "all_ok (step ev s) (refresh_all (step ev s) a)" if "a \<in> set (alls s)" for a
  proof (rule all_ok_refresh_all[of s])
    from that i show "all_ok s a" by (simp add: alls_inv_def)
  qed (rule handle_outcome_step)
  moreover have "alls (step ev s) = map (refresh_all (step ev s)) (alls s)"
    using Resume alls_refresh[of "loadData_resume p s"] by simp
  ultimately show ?thesis by (auto simp: alls_inv_def)
qed

lemma alls_inv_run: "alls_inv s \<Longrightarrow> alls_inv (run evs s)"
  by (induction evs arbitrary: s) (simp_all add: alls_inv_step)

lemma refresh_all_members [simp]: "members (refresh_all s a) = members a"
  unfolding refresh_all_def by (cases "a_state a") simp_all


lemma step_alls_nth:
  assumes "a < length (alls s)"
  shows "a < length (alls (step ev s)) \<and>
    (alls (step ev s) ! a = alls s ! a \<or> alls (step ev s) ! a = refresh_all (step ev s) (alls s ! a))"
proof (cases ev)
  case (Settle p t)
  then show ?thesis using assms alls_refresh[of "settle p t s"] by simp
next
  case (Resume p)
  then show ?thesis using assms alls_refresh[of "loadData_resume p s"] by simp
qed (use assms in \<open>simp_all add: alls_loadMultiple preload_def nth_append\<close>)

lemma step_alls_members:
  "a < length (alls s) \<Longrightarrow>
   a < length (alls (step ev s)) \<and> members (alls (step ev s) ! a) = members (alls s ! a)"
  using step_alls_nth[of a s ev] by auto


lemma run_alls_members:
  "a < length (alls s) \<Longrightarrow>
   a < length (alls (run evs s)) \<and> members (alls (run evs s) ! a) = members (alls s ! a)"
proof (induction evs arbitrary: s)
  case Nil
  then show ?case by simp
next
  case (Cons ev evs)
  from step_alls_members[OF Cons.prems, of ev] Cons.IH[of "step ev s"] show ?case by simp
qed


text \<open>What the state of a \<^verbatim>\<open>Promise.all\<close> promise says about its members.\<close>

lemma alls_inv_nth: "alls_inv s \<Longrightarrow> a < length (alls s) \<Longrightarrow> all_ok s (alls s ! a)"
  by (simp add: alls_inv_def)

lemma all_ok_Rejected_iff:
  assumes "all_ok s a"
  shows "(\<exists>e. a_state a = Rejected e) \<longleftrightarrow>
    (\<exists>h \<in> set (members a). \<exists>e. handle_outcome s h = Rejected e)"
proof (cases "a_state a")
  case Pending
  with assms have "all_settle (map (handle_outcome s) (members a)) = Pending"
    by (simp add: all_ok_def)
  then have "\<forall>e. Rejected e \<notin> set (map (handle_outcome s) (members a))"
    by (simp add: all_settle_Pending)
  then have "\<forall>h \<in> set (members a). \<forall>e. handle_outcome s h \<noteq> Rejected e" by force
  with Pending show ?thesis by auto
next
  case (Fulfilled vs)
  with assms have "map (handle_outcome s) (members a) = map Fulfilled vs" by (simp add: all_ok_def)
  then have "\<forall>e. Rejected e \<notin> set (map (handle_outcome s) (members a))" by auto
  then have "\<forall>h \<in> set (members a). \<forall>e. handle_outcome s h \<noteq> Rejected e" by force
  with Fulfilled show ?thesis by auto
next
  case (Rejected e)
  with assms obtain h where "h \<in> set (members a)" "handle_outcome s h = Rejected e"
    by (auto simp: all_ok_def)
  with Rejected show ?thesis by blast
qed


lemma all_ok_Fulfilled_iff:
  assumes "all_ok s a"
  shows "a_state a = Fulfilled vs \<longleftrightarrow> map (handle_outcome s) (members a) = map Fulfilled vs"
proof
  assume "a_state a = Fulfilled vs"
  with assms show "map (handle_outcome s) (members a) = map Fulfilled vs" by (simp add: all_ok_def)
next
  assume m: "map (handle_outcome s) (members a) = map Fulfilled vs"
  show "a_state a = Fulfilled vs"
  proof (cases "a_state a")
    case Pending
    with assms m show ?thesis by (simp add: all_ok_def all_settle_map_Fulfilled)
  next
    case (Fulfilled ws)
    with assms m have "map Fulfilled ws = (map Fulfilled vs :: 'a promise_state list)"
      by (simp add: all_ok_def)
    then have "ws = vs" by (simp add: inj_map_eq_map inj_def)
    with Fulfilled show ?thesis by simp
  next
    case (Rejected e)
    with assms m show ?thesis by (auto simp: all_ok_def)
  qed
qed



text \<open>The promises \<^verbatim>\<open>loadMultiple\<close> collects are those of its urls, in order.\<close>

lemma loadData_handle_of:
  assumes "loader_inv s"
  shows "handle_of (snd (loadData u useCache s)) u useCache (fst (loadData u useCache s))"
proof (cases "useCache \<and> cache s u \<noteq> None")
  case True
  then show ?thesis by (auto simp: loadData_Served)
next
  case nc: False
  show ?thesis
  proof (cases "loadingStates s u")
    case None
    with nc have "starts_fetch u useCache s" by (simp add: starts_fetch_def)
    then show ?thesis by (simp add: loadData_starts)
  next
    case (Some p)
    with nc loader_inv_marker[OF assms Some] show ?thesis by (simp add: loadData_Joined)
  qed
qed

lemma handle_of_loadData:
  "handle_of s u uc h \<Longrightarrow> handle_of (snd (loadData u' useCache s)) u uc h"
  by (cases h) (auto simp: loadData_promises nth_append)

lemma handle_of_loadEach:
  "handle_of s u uc h \<Longrightarrow> handle_of (snd (loadEach urls useCache s)) u uc h"
proof (induction urls arbitrary: s)
  case Nil
  then show ?case by simp
next
  case (Cons u' us)
  from Cons.IH[OF handle_of_loadData[OF Cons.prems, of u' useCache]]
  show ?case by (simp add: split_def Let_def)
qed

lemma loadEach_handle_of:
  "loader_inv s \<Longrightarrow> i < length urls \<Longrightarrow>
   handle_of (snd (loadEach urls useCache s)) (urls ! i) useCache (fst (loadEach urls useCache s) ! i)"
proof (induction urls arbitrary: s i)
  case Nil
  then show ?case by simp
next
  case (Cons u us)
  show ?case
  proof (cases i)
    case 0
    from handle_of_loadEach[OF loadData_handle_of[OF Cons.prems(1), of u useCache], of us useCache]
    show ?thesis using 0 by (simp add: split_def Let_def)
  next
    case (Suc j)
    with Cons.prems(2) have "j < length us" by simp
    from Cons.IH[OF loader_inv_loadData[OF Cons.prems(1)] this, of u useCache]
    show ?thesis using Suc by (simp add: split_def Let_def)
  qed
qed

lemma handle_of_run:
  assumes "loader_inv s" "handle_of s u uc h" "handle_outcome (run evs s) h = Fulfilled v"
  shows "(uc \<and> cache s u = Some v) \<or>
    (\<exists>p < length (promises (run evs s)).
       p_url (promises (run evs s) ! p) = u \<and> p_state (promises (run evs s) ! p) = Fulfilled v)"
proof (cases h)
  case (Served w)
  with assms(2,3) show ?thesis by simp
next
  case (Joined p)
  with assms(2) run_promise_frame[of p s evs] assms(3) show ?thesis
    by (auto split: if_splits)
next
  case (Initiated p)
  with assms(3) have p: "p < length (promises (run evs s))" "p_resumed (promises (run evs s) ! p)"
    and out: "p_result (promises (run evs s) ! p) = Fulfilled v"
    by (auto simp: p_resumed_def split: if_splits)
  from loader_inv_result[OF loader_inv_run[OF assms(1)] p] out
  have "p_state (promises (run evs s) ! p) = Fulfilled v" by simp
  with Initiated assms(2) run_promise_frame[of p s evs] show ?thesis by auto
qed

lemma loadMultiple_run:
  assumes "alls_inv s0"
  shows "fst (loadMultiple urls useCache s0) < length (alls (run evs (snd (loadMultiple urls useCache s0))))"
    and "members (alls (run evs (snd (loadMultiple urls useCache s0))) ! fst (loadMultiple urls useCache s0))
          = fst (loadEach urls useCache s0)"
    and "all_ok (run evs (snd (loadMultiple urls useCache s0)))
          (alls (run evs (snd (loadMultiple urls useCache s0))) ! fst (loadMultiple urls useCache s0))"
    and "alls_inv (run evs (snd (loadMultiple urls useCache s0)))"
    and "a_state (alls (snd (loadMultiple urls useCache s0)) ! fst (loadMultiple urls useCache s0))
          = all_settle (map (handle_outcome s0) (fst (loadEach urls useCache s0)))"
proof -
  let ?a = "fst (loadMultiple urls useCache s0)"
  let ?s1 = "snd (loadMultiple urls useCache s0)"
  have a: "?a < length (alls ?s1)" by (simp add: alls_loadMultiple)
  have m: "members (alls ?s1 ! ?a) = fst (loadEach urls useCache s0)"
    by (simp add: alls_loadMultiple)
  have i1: "alls_inv ?s1" using alls_inv_step[OF assms, of "LoadMultiple urls useCache"] by simp
  show i: "alls_inv (run evs ?s1)" by (rule alls_inv_run[OF i1])
  from run_alls_members[OF a, of evs] m
  show l: "?a < length (alls (run evs ?s1))"
    and "members (alls (run evs ?s1) ! ?a) = fst (loadEach urls useCache s0)" by simp_all
  from alls_inv_nth[OF i l] show "all_ok (run evs ?s1) (alls (run evs ?s1) ! ?a)" .
  show "a_state (alls ?s1 ! ?a) = all_settle (map (handle_outcome s0) (fst (loadEach urls useCache s0)))"
    by (simp add: alls_loadMultiple)
qed

section \<open>The claims\<close>

text \<open>
  Each claim is stated for the states a run can reach: \<open>run evs0 DataLoader\<close> for any list
  of events \<open>evs0\<close>. Closed instances evaluate the definitions on short runs.
\<close>

lemmas eval_defs = p_resumed_def DataLoader_def loadData_def fetchData_def settle_def loadData_resume_def
  refresh_def refresh_all_def settled_def clearCache_def loadMultiple_def preload_def Let_def

text \<open>
  Claim C1. Take any state a run can reach in which a call \<^verbatim>\<open>loadData(k, useCache)\<close> is
  not served from the cache and finds no fetch under way: it starts the fetch, with promise
  \<open>p\<close>. Until that call is resumed, whatever else happens (any calls of any methods for
  any keys, the transport answering in any order), the transport has been called exactly
  once more for \<open>k\<close>, every call \<^verbatim>\<open>loadData(k, uc)\<close> that is not served from the cache
  joins the fetch \<open>p\<close> and leaves the state as it is, and neither the call that started
  the fetch nor a call that joined it has an outcome yet. An answer \<open>t\<close> of the transport
  settles the fetch as \<^verbatim>\<open>fetchData\<close> makes of \<open>t\<close>; and once the fetch has settled,
  resuming the starting call settles that call and every call that joined the fetch, all of
  them as the fetch has settled: with the same value or with the same error. They keep that
  outcome whatever happens later, and in every later state the starting call and the
  joining calls stand alike.
\<close>

theorem in_flight_join:
  fixes evs0 evs :: "'v event list"
  assumes "loadingStates (run evs0 DataLoader) k = None"
    and "\<not> (useCache \<and> cache (run evs0 DataLoader) k \<noteq> None)"
    and "Resume (length (promises (run evs0 DataLoader))) \<notin> set evs"
  shows "let s0 = run evs0 DataLoader; p = length (promises s0);
             s = run evs (snd (loadData k useCache s0)); s' = step (Resume p) s
         in fst (loadData k useCache s0) = Initiated p \<and>
            count_list (requests s) k = count_list (requests s0) k + 1 \<and>
            (\<forall>uc. \<not> (uc \<and> cache s k \<noteq> None) \<longrightarrow> loadData k uc s = (Joined p, s)) \<and>
            handle_outcome s (Initiated p) = Pending \<and>
            handle_outcome s (Joined p) = Pending \<and>
            (\<forall>t. p_state (promises s ! p) = Pending \<longrightarrow>
               p_state (promises (step (Settle p t) s) ! p) = settled (snd (fetchData_settle k t))) \<and>
            (p_state (promises s ! p) \<noteq> Pending \<longrightarrow>
               handle_outcome s' (Initiated p) = p_state (promises s ! p) \<and>
               handle_outcome s' (Joined p) = p_state (promises s ! p) \<and>
               count_list (requests s') k = count_list (requests s0) k + 1 \<and>
               (\<forall>evs'. handle_outcome (run evs' s') (Initiated p) = p_state (promises s ! p) \<and>
                  handle_outcome (run evs' s') (Joined p) = p_state (promises s ! p))) \<and>
            (\<forall>evs'. handle_outcome (run evs' s) (Initiated p) = handle_outcome (run evs' s) (Joined p))"
proof -
  let ?init = "run evs0 DataLoader"
  let ?p = "length (promises ?init)"
  let ?started = "snd (loadData k useCache ?init)"
  let ?now = "run evs ?started"
  let ?after = "step (Resume ?p) ?now"
  have inv0: "loader_inv ?init" by (rule loader_inv_run[OF loader_inv_DataLoader])
  have st: "starts_fetch k useCache ?init" using assms(1,2) by (simp add: starts_fetch_def)
  have inv1: "loader_inv ?started" by (rule loader_inv_loadData[OF inv0])
  have inv: "loader_inv ?now" by (rule loader_inv_run[OF inv1])
  have k1: "loadingStates ?started k = Some ?p" by (simp add: loadData_starts[OF st])
  have r1: "requests ?started = requests ?init @ [k]" by (simp add: loadData_starts[OF st])
  from run_in_flight[OF inv1 k1 assms(3)]
  have k: "loadingStates ?now k = Some ?p"
    and c: "count_list (requests ?now) k = count_list (requests ?init) k + 1"
    by (simp_all add: r1)
  from loader_inv_marker[OF inv k]
  have p: "?p < length (promises ?now)" "p_url (promises ?now ! ?p) = k" by simp_all
  have j: "\<forall>uc. \<not> (uc \<and> cache ?now k \<noteq> None) \<longrightarrow> loadData k uc ?now = (Joined ?p, ?now)"
    using k by (simp add: loadData_Joined)
  note w = handle_outcome_in_flight[OF inv k]
  have a: "\<forall>t. p_state (promises ?now ! ?p) = Pending \<longrightarrow>
      p_state (promises (step (Settle ?p t) ?now) ! ?p) = settled (snd (fetchData_settle k t))"
    using p by (simp add: settle_promises_nth)
  have b: "handle_outcome ?after (Initiated ?p) = p_state (promises ?now ! ?p) \<and>
      handle_outcome ?after (Joined ?p) = p_state (promises ?now ! ?p) \<and>
      count_list (requests ?after) k = count_list (requests ?init) k + 1 \<and>
      (\<forall>evs'. handle_outcome (run evs' ?after) (Initiated ?p) = p_state (promises ?now ! ?p) \<and>
         handle_outcome (run evs' ?after) (Joined ?p) = p_state (promises ?now ! ?p))"
    if pst: "p_state (promises ?now ! ?p) \<noteq> Pending"
  proof -
    note r = step_Resume_in_flight[OF inv k pst]
    from r(4) pst handle_outcome_run[of ?after "Initiated ?p"]
    have i: "\<forall>evs'. handle_outcome (run evs' ?after) (Initiated ?p) = p_state (promises ?now ! ?p)"
      by simp
    from r(5) pst handle_outcome_run[of ?after "Joined ?p"]
    have l: "\<forall>evs'. handle_outcome (run evs' ?after) (Joined ?p) = p_state (promises ?now ! ?p)"
      by simp
    from r(2) c have "count_list (requests ?after) k = count_list (requests ?init) k + 1"
      by simp
    with r(4,5) i l show ?thesis by blast
  qed
  have o: "\<forall>evs'. handle_outcome (run evs' ?now) (Initiated ?p) = handle_outcome (run evs' ?now) (Joined ?p)"
    using handle_outcome_Initiated_Joined[OF loader_inv_run[OF inv]] by blast
  from loadData_starts(1)[OF st] c j w a b o show ?thesis unfolding Let_def by blast
qed

theorem in_flight_join_witness:
  "loadingStates (run [] (DataLoader :: nat loader)) ''a'' = None \<and>
   cache (run [] (DataLoader :: nat loader)) ''a'' = None \<and>
   Resume 0 \<notin> set [Load ''a'' True, Load ''a'' False :: nat event] \<and>
   Resume 0 \<notin> set [Load ''a'' True, Load ''a'' False, Settle 0 (FetchResponse True 200 (Inr (5::nat)))] \<and>
   fst (loadData ''a'' True (run [] (DataLoader :: nat loader))) = Initiated 0 \<and>
   p_state (promises (run [Load ''a'' True, Load ''a'' False]
     (snd (loadData ''a'' True (run [] (DataLoader :: nat loader))))) ! 0) = Pending \<and>
   p_state (promises (step (Settle 0 (FetchResponse True 200 (Inr 5))) (run [Load ''a'' True, Load ''a'' False]
     (snd (loadData ''a'' True (run [] (DataLoader :: nat loader)))))) ! 0) = Fulfilled 5 \<and>
   p_state (promises (run [Load ''a'' True, Load ''a'' False, Settle 0 (FetchResponse True 200 (Inr 5))]
     (snd (loadData ''a'' True (run [] (DataLoader :: nat loader))))) ! 0) = Fulfilled 5 \<and>
   count_list (requests (run [Load ''a'' True, Load ''a'' False, Settle 0 (FetchResponse True 200 (Inr 5))]
     (snd (loadData ''a'' True (run [] (DataLoader :: nat loader)))))) ''a'' = 1 \<and>
   fst (loadData ''a'' False (run [Load ''a'' True, Load ''a'' False, Settle 0 (FetchResponse True 200 (Inr 5))]
     (snd (loadData ''a'' True (run [] (DataLoader :: nat loader)))))) = Joined 0 \<and>
   handle_outcome (run [Load ''a'' True, Load ''a'' False, Settle 0 (FetchResponse True 200 (Inr 5))]
     (snd (loadData ''a'' True (run [] (DataLoader :: nat loader))))) (Joined 0) = Pending \<and>
   handle_outcome (step (Resume 0)
     (run [Load ''a'' True, Load ''a'' False, Settle 0 (FetchResponse True 200 (Inr 5))]
       (snd (loadData ''a'' True (run [] (DataLoader :: nat loader)))))) (Initiated 0) = Fulfilled 5 \<and>
   handle_outcome (step (Resume 0)
     (run [Load ''a'' True, Load ''a'' False, Settle 0 (FetchResponse True 200 (Inr 5))]
       (snd (loadData ''a'' True (run [] (DataLoader :: nat loader)))))) (Joined 0) = Fulfilled 5 \<and>
   count_list (requests (step (Resume 0)
     (run [Load ''a'' True, Load ''a'' False, Settle 0 (FetchResponse True 200 (Inr 5))]
       (snd (loadData ''a'' True (run [] (DataLoader :: nat loader))))))) ''a'' = 1"
  using in_flight_join [where evs0 = "[]" and k = "''a''" and useCache = True
      and evs = "[Load ''a'' True, Load ''a'' False, Settle 0 (FetchResponse True 200 (Inr (5::nat)))]"]
    in_flight_join [where evs0 = "[]" and k = "''a''" and useCache = True
      and evs = "[Load ''a'' True, Load ''a'' False :: nat event]"]
  by (simp add: eval_defs)

text \<open>
  Claim C2 does not hold as stated. A call \<^verbatim>\<open>loadData(k, false)\<close> that joins a fetch started
  by \<^verbatim>\<open>loadData(k, true)\<close> resolves to a value that the starting call stores in the cache:
  the next \<^verbatim>\<open>loadData(k, true)\<close> is served from the cache and the transport has been called
  once in all. And with \<open>k\<close> in the cache already, a call \<^verbatim>\<open>loadData(k, false)\<close> starts a
  fetch and succeeds with a value that is not stored, but the next \<^verbatim>\<open>loadData(k, true)\<close>
  is served the older value from the cache and does not call the transport.
\<close>

theorem bypass_result_cached_counterexample:
  "fst (loadData ''a'' False (run [Load ''a'' True] (DataLoader :: nat loader))) = Joined 0 \<and>
   requests (run [Load ''a'' True, Load ''a'' False] (DataLoader :: nat loader)) = [''a''] \<and>
   handle_outcome
     (run [Load ''a'' True, Load ''a'' False, Settle 0 (FetchResponse True 200 (Inr 5)), Resume 0]
        (DataLoader :: nat loader)) (Joined 0) = Fulfilled 5 \<and>
   cache
     (run [Load ''a'' True, Load ''a'' False, Settle 0 (FetchResponse True 200 (Inr 5)), Resume 0]
        (DataLoader :: nat loader)) ''a'' = Some 5 \<and>
   fst (loadData ''a'' True
     (run [Load ''a'' True, Load ''a'' False, Settle 0 (FetchResponse True 200 (Inr 5)), Resume 0]
        (DataLoader :: nat loader))) = Served 5 \<and>
   requests (snd (loadData ''a'' True
     (run [Load ''a'' True, Load ''a'' False, Settle 0 (FetchResponse True 200 (Inr 5)), Resume 0]
        (DataLoader :: nat loader)))) = [''a''] \<and>
   fst (loadData ''b'' False
     (run [Load ''b'' True, Settle 0 (FetchResponse True 200 (Inr 5)), Resume 0]
        (DataLoader :: nat loader))) = Initiated 1 \<and>
   handle_outcome
     (run [Load ''b'' True, Settle 0 (FetchResponse True 200 (Inr 5)), Resume 0, Load ''b'' False,
           Settle 1 (FetchResponse True 200 (Inr 6)), Resume 1]
        (DataLoader :: nat loader)) (Initiated 1) = Fulfilled 6 \<and>
   fst (loadData ''b'' True
     (run [Load ''b'' True, Settle 0 (FetchResponse True 200 (Inr 5)), Resume 0, Load ''b'' False,
           Settle 1 (FetchResponse True 200 (Inr 6)), Resume 1]
        (DataLoader :: nat loader))) = Served 5 \<and>
   requests (snd (loadData ''b'' True
     (run [Load ''b'' True, Settle 0 (FetchResponse True 200 (Inr 5)), Resume 0, Load ''b'' False,
           Settle 1 (FetchResponse True 200 (Inr 6)), Resume 1]
        (DataLoader :: nat loader)))) = [''b'', ''b'']"
  by (simp add: eval_defs)

text \<open>
  Claim C2, amended. A call \<^verbatim>\<open>loadData(k, false)\<close> is never served from the cache: it
  joins the fetch under way for \<open>k\<close> instead of starting a new one, or it starts the
  fetch itself, which is then a fetch started without caching. Let \<open>p\<close> be the promise of
  that fetch. When the fetch succeeds with \<open>v\<close> and the starting call is resumed, the call
  resolves to \<open>v\<close>, and \<open>v\<close> is stored in the cache exactly when the call that started
  the fetch was a caching one. So when the call started the fetch itself or joined a fetch
  started by another call without caching, the cache is left as it is; and if \<open>k\<close> was not
  cached when the call was made, it is not cached afterwards and the next
  \<^verbatim>\<open>loadData(k, true)\<close> calls the transport again.
\<close>

theorem bypass_load_not_cached:
  fixes evs0 evs :: "'v event list"
  assumes "fst (loadData k False (run evs0 DataLoader)) = Joined p \<or>
           fst (loadData k False (run evs0 DataLoader)) = Initiated p"
    and "Resume p \<notin> set evs"
  shows "let s0 = run evs0 DataLoader; h = fst (loadData k False s0);
             s0' = snd (loadData k False s0); s1 = run evs s0'; s2 = step (Resume p) s1
         in (\<forall>q. loadingStates s0 k = Some q \<longrightarrow> loadData k False s0 = (Joined q, s0)) \<and>
            (h = Initiated p \<longrightarrow>
               requests s0' = requests s0 @ [k] \<and> \<not> p_useCache (promises s0' ! p)) \<and>
            (p_state (promises s1 ! p) = Fulfilled v \<longrightarrow>
               handle_outcome s2 h = Fulfilled v \<and>
               cache s2 = (if p_useCache (promises s0' ! p) then (cache s1)(k \<mapsto> v) else cache s1) \<and>
               (\<not> p_useCache (promises s0' ! p) \<and> cache s0 k = None \<longrightarrow>
                  cache s2 k = None \<and>
                  fst (loadData k True s2) = Initiated (length (promises s2)) \<and>
                  requests (snd (loadData k True s2)) = requests s2 @ [k]))"
proof -
  let ?a = "run evs0 DataLoader"
  let ?h = "fst (loadData k False ?a)"
  let ?a' = "snd (loadData k False ?a)"
  let ?b = "run evs ?a'"
  let ?c = "step (Resume p) ?b"
  have inv: "loader_inv ?a" by (rule loader_inv_run[OF loader_inv_DataLoader])
  have inv': "loader_inv ?a'" by (rule loader_inv_loadData[OF inv])
  have invb: "loader_inv ?b" by (rule loader_inv_run[OF inv'])
  have join: "\<forall>q. loadingStates ?a k = Some q \<longrightarrow> loadData k False ?a = (Joined q, ?a)"
    by (simp add: loadData_Joined)
  have own: "requests ?a' = requests ?a @ [k] \<and> \<not> p_useCache (promises ?a' ! p)"
    if "?h = Initiated p"
    using that by (simp add: loadData_Initiated_iff loadData_starts)
  have k': "loadingStates ?a' k = Some p"
    using assms(1)
  proof
    assume "?h = Joined p"
    then show ?thesis by (simp add: loadData_Joined_iff loadData_Joined)
  next
    assume "?h = Initiated p"
    then show ?thesis by (simp add: loadData_Initiated_iff loadData_starts)
  qed
  from run_in_flight[OF inv' k' assms(2)] have kb: "loadingStates ?b k = Some p" by simp
  from loader_inv_marker[OF inv' k'] have p': "p < length (promises ?a')" by simp
  from run_promise_frame[OF p', of evs]
  have nb: "p_useCache (promises ?b ! p) = p_useCache (promises ?a' ! p)" by simp
  have good: "handle_outcome ?c ?h = Fulfilled v \<and>
       cache ?c = (if p_useCache (promises ?a' ! p) then (cache ?b)(k \<mapsto> v) else cache ?b) \<and>
       (\<not> p_useCache (promises ?a' ! p) \<and> cache ?a k = None \<longrightarrow>
          cache ?c k = None \<and>
          fst (loadData k True ?c) = Initiated (length (promises ?c)) \<and>
          requests (snd (loadData k True ?c)) = requests ?c @ [k])"
    if ful: "p_state (promises ?b ! p) = Fulfilled v"
  proof -
    from ful have pst: "p_state (promises ?b ! p) \<noteq> Pending" by simp
    note r = step_Resume_in_flight[OF invb kb pst]
    have seen: "handle_outcome ?c ?h = Fulfilled v"
      using assms(1) r(4,5) ful by auto
    have cc: "cache ?c = (if p_useCache (promises ?a' ! p) then (cache ?b)(k \<mapsto> v) else cache ?b)"
      using r(3) nb ful by simp
    have "cache ?c k = None \<and>
          fst (loadData k True ?c) = Initiated (length (promises ?c)) \<and>
          requests (snd (loadData k True ?c)) = requests ?c @ [k]"
      if n: "\<not> p_useCache (promises ?a' ! p)" and c0: "cache ?a k = None"
    proof -
      from c0 have "cache ?a' k = None" by simp
      from run_in_flight_uncached[OF inv' k' assms(2) this] have cb: "cache ?b k = None" .
      with loadData_new_fetch[of ?c k True] r(1) cc n show ?thesis by simp
    qed
    with seen cc show ?thesis by blast
  qed
  from join own good show ?thesis unfolding Let_def by blast
qed

theorem bypass_load_not_cached_witness:
  "fst (loadData ''a'' False (run [] (DataLoader :: nat loader))) = Initiated 0 \<and>
   Resume 0 \<notin> set [Load ''a'' False, Settle 0 (FetchResponse True 200 (Inr (5::nat)))] \<and>
   \<not> p_useCache (promises (snd (loadData ''a'' False (run [] (DataLoader :: nat loader)))) ! 0) \<and>
   cache (run [] (DataLoader :: nat loader)) ''a'' = None \<and>
   p_state (promises (run [Load ''a'' False, Settle 0 (FetchResponse True 200 (Inr 5))]
      (snd (loadData ''a'' False (run [] (DataLoader :: nat loader))))) ! 0) = Fulfilled 5 \<and>
   handle_outcome (step (Resume 0) (run [Load ''a'' False, Settle 0 (FetchResponse True 200 (Inr 5))]
      (snd (loadData ''a'' False (run [] (DataLoader :: nat loader))))))
      (fst (loadData ''a'' False (run [] (DataLoader :: nat loader)))) = Fulfilled 5 \<and>
   cache (step (Resume 0) (run [Load ''a'' False, Settle 0 (FetchResponse True 200 (Inr 5))]
      (snd (loadData ''a'' False (run [] (DataLoader :: nat loader)))))) ''a'' = None \<and>
   requests (snd (loadData ''a'' True (step (Resume 0)
      (run [Load ''a'' False, Settle 0 (FetchResponse True 200 (Inr 5))]
        (snd (loadData ''a'' False (run [] (DataLoader :: nat loader)))))))) = [''a'', ''a''] \<and>
   fst (loadData ''a'' False (run [Load ''a'' False] (DataLoader :: nat loader))) = Joined 0 \<and>
   Resume 0 \<notin> set [Settle 0 (FetchResponse True 200 (Inr (7::nat)))] \<and>
   \<not> p_useCache (promises (snd (loadData ''a'' False (run [Load ''a'' False] (DataLoader :: nat loader)))) ! 0) \<and>
   cache (run [Load ''a'' False] (DataLoader :: nat loader)) ''a'' = None \<and>
   p_state (promises (run [Settle 0 (FetchResponse True 200 (Inr 7))]
      (snd (loadData ''a'' False (run [Load ''a'' False] (DataLoader :: nat loader))))) ! 0) = Fulfilled 7 \<and>
   handle_outcome (step (Resume 0) (run [Settle 0 (FetchResponse True 200 (Inr 7))]
      (snd (loadData ''a'' False (run [Load ''a'' False] (DataLoader :: nat loader))))))
      (fst (loadData ''a'' False (run [Load ''a'' False] (DataLoader :: nat loader)))) = Fulfilled 7 \<and>
   cache (step (Resume 0) (run [Settle 0 (FetchResponse True 200 (Inr 7))]
      (snd (loadData ''a'' False (run [Load ''a'' False] (DataLoader :: nat loader)))))) ''a'' = None \<and>
   requests (snd (loadData ''a'' True (step (Resume 0)
      (run [Settle 0 (FetchResponse True 200 (Inr 7))]
        (snd (loadData ''a'' False (run [Load ''a'' False] (DataLoader :: nat loader)))))))) = [''a'', ''a'']"
  using bypass_load_not_cached [where evs0 = "[]" and k = "''a''" and p = 0
      and evs = "[Load ''a'' False, Settle 0 (FetchResponse True 200 (Inr (5::nat)))]" and v = 5]
    bypass_load_not_cached [where evs0 = "[Load ''a'' False]" and k = "''a''" and p = 0
      and evs = "[Settle 0 (FetchResponse True 200 (Inr (7::nat)))]" and v = 7]
  by (simp add: eval_defs)

text \<open>
  Claim C3 does not hold as stated. With \<open>k\<close> in the cache, a call \<^verbatim>\<open>loadData(k, false)\<close>
  starts a fetch; when that fetch fails, the next \<^verbatim>\<open>loadData(k)\<close> is served from the cache
  and does not call the transport.
\<close>

theorem failed_fetch_cached_key_counterexample:
  "fst (loadData ''a'' False
     (run [Load ''a'' True, Settle 0 (FetchResponse True 200 (Inr 5)), Resume 0]
        (DataLoader :: nat loader))) = Initiated 1 \<and>
   p_state (promises
     (run [Load ''a'' True, Settle 0 (FetchResponse True 200 (Inr 5)), Resume 0, Load ''a'' False,
           Settle 1 (FetchRejected (JsError ''TypeError'' ''Failed to fetch'')), Resume 1]
        (DataLoader :: nat loader)) ! 1) = Rejected (JsError ''TypeError'' ''Failed to fetch'') \<and>
   loadingStates
     (run [Load ''a'' True, Settle 0 (FetchResponse True 200 (Inr 5)), Resume 0, Load ''a'' False,
           Settle 1 (FetchRejected (JsError ''TypeError'' ''Failed to fetch'')), Resume 1]
        (DataLoader :: nat loader)) ''a'' = None \<and>
   fst (loadData ''a'' True
     (run [Load ''a'' True, Settle 0 (FetchResponse True 200 (Inr 5)), Resume 0, Load ''a'' False,
           Settle 1 (FetchRejected (JsError ''TypeError'' ''Failed to fetch'')), Resume 1]
        (DataLoader :: nat loader))) = Served 5 \<and>
   requests (snd (loadData ''a'' True
     (run [Load ''a'' True, Settle 0 (FetchResponse True 200 (Inr 5)), Resume 0, Load ''a'' False,
           Settle 1 (FetchRejected (JsError ''TypeError'' ''Failed to fetch'')), Resume 1]
        (DataLoader :: nat loader)))) = [''a'', ''a'']"
  by (simp add: eval_defs)

text \<open>
  Claim C3, amended. When the fetch under way for \<open>k\<close> has failed with \<open>e\<close> and the call
  that started it is resumed, the entry of \<open>k\<close> in \<^verbatim>\<open>loadingStates\<close> is removed, the cache
  is left as it is, the call that started the fetch and every call that joined it are
  rejected with \<open>e\<close>, and the next \<^verbatim>\<open>loadData(k, uc)\<close> that is not served from the cache
  starts a new fetch and calls the transport. When the failed fetch was started by a
  caching call, \<open>k\<close> is not in the cache, so every next call for \<open>k\<close> does.
\<close>

theorem failed_fetch_retry:
  fixes evs0 evs :: "'v event list"
  assumes "loadingStates (run evs0 DataLoader) k = Some p"
    and "Resume p \<notin> set evs"
    and "p_state (promises (run evs (run evs0 DataLoader)) ! p) = Rejected e"
  shows "let s0 = run evs0 DataLoader; s1 = run evs s0; s2 = step (Resume p) s1
         in loadingStates s2 k = None \<and>
            cache s2 = cache s1 \<and>
            handle_outcome s2 (Joined p) = Rejected e \<and>
            handle_outcome s2 (Initiated p) = Rejected e \<and>
            (\<forall>uc. \<not> (uc \<and> cache s2 k \<noteq> None) \<longrightarrow>
               fst (loadData k uc s2) = Initiated (length (promises s2)) \<and>
               requests (snd (loadData k uc s2)) = requests s2 @ [k]) \<and>
            (p_useCache (promises s0 ! p) \<longrightarrow> cache s2 k = None)"
proof -
  let ?a = "run evs0 DataLoader"
  let ?b = "run evs ?a"
  let ?c = "step (Resume p) ?b"
  have inv: "loader_inv ?a" by (rule loader_inv_run[OF loader_inv_DataLoader])
  have invb: "loader_inv ?b" by (rule loader_inv_run[OF inv])
  from run_in_flight[OF inv assms(1,2)] have kb: "loadingStates ?b k = Some p" by simp
  from assms(3) have st: "p_state (promises ?b ! p) \<noteq> Pending" by simp
  note r = step_Resume_in_flight[OF invb kb st]
  have cc: "cache ?c = cache ?b" using r(3) assms(3) by simp
  have again: "\<forall>uc. \<not> (uc \<and> cache ?c k \<noteq> None) \<longrightarrow>
               fst (loadData k uc ?c) = Initiated (length (promises ?c)) \<and>
               requests (snd (loadData k uc ?c)) = requests ?c @ [k]"
    using loadData_new_fetch[OF r(1)] by blast
  from loader_inv_marker[OF inv assms(1)] have p: "p < length (promises ?a)" by simp
  have "cache ?c k = None" if "p_useCache (promises ?a ! p)"
    using loader_inv_uncached[OF invb kb] run_promise_frame[OF p, of evs] that cc by simp
  with r(1) cc r(4,5) assms(3) again show ?thesis unfolding Let_def by simp
qed

theorem failed_fetch_retry_witness:
  "loadingStates (run [Load ''a'' True, Load ''a'' True] (DataLoader :: nat loader)) ''a'' = Some 0 \<and>
   Resume 0 \<notin> set [Settle 0 (FetchResponse False 404 (Inr (5::nat)))] \<and>
   p_useCache (promises (run [Load ''a'' True, Load ''a'' True] (DataLoader :: nat loader)) ! 0) \<and>
   p_state (promises (run [Settle 0 (FetchResponse False 404 (Inr 5))]
     (run [Load ''a'' True, Load ''a'' True] (DataLoader :: nat loader))) ! 0) = Rejected (http_error 404) \<and>
   loadingStates (step (Resume 0) (run [Settle 0 (FetchResponse False 404 (Inr 5))]
     (run [Load ''a'' True, Load ''a'' True] (DataLoader :: nat loader)))) ''a'' = None \<and>
   cache (step (Resume 0) (run [Settle 0 (FetchResponse False 404 (Inr 5))]
     (run [Load ''a'' True, Load ''a'' True] (DataLoader :: nat loader)))) ''a'' = None \<and>
   handle_outcome (step (Resume 0) (run [Settle 0 (FetchResponse False 404 (Inr 5))]
     (run [Load ''a'' True, Load ''a'' True] (DataLoader :: nat loader)))) (Joined 0)
     = Rejected (http_error 404) \<and>
   requests (snd (loadData ''a'' True (step (Resume 0) (run [Settle 0 (FetchResponse False 404 (Inr 5))]
     (run [Load ''a'' True, Load ''a'' True] (DataLoader :: nat loader)))))) = [''a'', ''a'']"
  using failed_fetch_retry [where evs0 = "[Load ''a'' True, Load ''a'' True]" and k = "''a''" and p = 0
      and evs = "[Settle 0 (FetchResponse False 404 (Inr (5::nat)))]" and e = "http_error 404"]
  by (simp add: eval_defs)

text \<open>
  Claim C4 does not hold as stated. A call \<^verbatim>\<open>loadData(k, true)\<close> that joins a fetch started
  by \<^verbatim>\<open>loadData(k, false)\<close> succeeds, and nothing is cached: the next
  \<^verbatim>\<open>loadData(k, true)\<close> starts a second fetch.
\<close>

theorem joined_success_not_cached_counterexample:
  "fst (loadData ''a'' True (run [Load ''a'' False] (DataLoader :: nat loader))) = Joined 0 \<and>
   handle_outcome
     (run [Load ''a'' False, Load ''a'' True, Settle 0 (FetchResponse True 200 (Inr 5)), Resume 0]
        (DataLoader :: nat loader)) (Joined 0) = Fulfilled 5 \<and>
   cache
     (run [Load ''a'' False, Load ''a'' True, Settle 0 (FetchResponse True 200 (Inr 5)), Resume 0]
        (DataLoader :: nat loader)) ''a'' = None \<and>
   fst (loadData ''a'' True
     (run [Load ''a'' False, Load ''a'' True, Settle 0 (FetchResponse True 200 (Inr 5)), Resume 0]
        (DataLoader :: nat loader))) = Initiated 1 \<and>
   requests (snd (loadData ''a'' True
     (run [Load ''a'' False, Load ''a'' True, Settle 0 (FetchResponse True 200 (Inr 5)), Resume 0]
        (DataLoader :: nat loader)))) = [''a'', ''a'']"
  by (simp add: eval_defs)

text \<open>
  Claim C4, amended. Let a call \<^verbatim>\<open>loadData(k, true)\<close> have succeeded with \<open>v\<close>: it was
  served from the cache, or it started the fetch itself, or it joined a fetch started by a
  caching call that has been resumed since. As long as \<^verbatim>\<open>clearCache\<close> has not been called
  in between, whatever else has happened, a second \<^verbatim>\<open>loadData(k, true)\<close> returns \<open>v\<close> from
  the cache and leaves the state as it is: the transport is not called.
\<close>

theorem cache_hit_after_success:
  fixes evs0 evs :: "'v event list"
  assumes "\<forall>arg. ClearCache arg \<notin> set evs"
    and "handle_outcome (run evs (snd (loadData k True (run evs0 DataLoader))))
           (fst (loadData k True (run evs0 DataLoader))) = Fulfilled v"
    and "\<forall>p. fst (loadData k True (run evs0 DataLoader)) = Joined p \<longrightarrow>
           p_useCache (promises (run evs0 DataLoader) ! p) \<and>
           p_resumed (promises (run evs (snd (loadData k True (run evs0 DataLoader)))) ! p)"
  shows "loadData k True (run evs (snd (loadData k True (run evs0 DataLoader)))) =
           (Served v, run evs (snd (loadData k True (run evs0 DataLoader))))"
proof -
  let ?a = "run evs0 DataLoader"
  let ?a' = "snd (loadData k True ?a)"
  let ?b = "run evs ?a'"
  have inv: "loader_inv ?a" by (rule loader_inv_run[OF loader_inv_DataLoader])
  have inv': "loader_inv ?a'" by (rule loader_inv_loadData[OF inv])
  have "cache ?b k = Some v"
  proof (cases "fst (loadData k True ?a)")
    case (Served w)
    with assms(2) have "w = v" by simp
    with Served have "cache ?a k = Some v"
      by (auto simp: loadData_def fetchData_def split: option.splits)
    then have "cache ?a' k = Some v" by simp
    from run_cache_kept[OF inv' this assms(1)] show ?thesis .
  next
    case (Joined p)
    then have k0: "loadingStates ?a k = Some p" and same: "?a' = ?a"
      by (simp_all add: loadData_Joined_iff loadData_Joined)
    from loader_inv_marker[OF inv k0]
    have p: "p < length (promises ?a)" "p_url (promises ?a ! p) = k" "\<not> p_resumed (promises ?a ! p)"
      by simp_all
    from assms(3) Joined have uc: "p_useCache (promises ?a ! p)"
      and res: "p_resumed (promises (run evs ?a) ! p)" by (simp_all add: same)
    from run_promise_frame[OF p(1), of evs] have "p < length (promises (run evs ?a))" by simp
    with assms(2) Joined have ful: "p_state (promises (run evs ?a) ! p) = Fulfilled v"
      by (simp add: same split: if_splits)
    from run_cached_after_resume[OF inv p(1,2) uc _ assms(1) res ful] p(3)
    show ?thesis by (simp add: same)
  next
    case (Initiated p)
    then have st: "starts_fetch k True ?a"
      by (auto simp: starts_fetch_def loadData_def fetchData_def split: option.splits)
    with Initiated have pe: "p = length (promises ?a)" by (simp add: loadData_starts)
    have p': "p < length (promises ?a')" "p_url (promises ?a' ! p) = k"
      "p_useCache (promises ?a' ! p)" "\<not> p_resumed (promises ?a' ! p)"
      by (simp_all add: pe loadData_starts[OF st])
    from assms(2) Initiated
    have lt: "p < length (promises ?b)" and res: "p_resumed (promises ?b ! p)"
      and out: "p_result (promises ?b ! p) = Fulfilled v"
      by (auto simp: p_resumed_def split: if_splits)
    from loader_inv_result[OF loader_inv_run[OF inv'] lt res] out
    have ful: "p_state (promises ?b ! p) = Fulfilled v" by simp
    from run_cached_after_resume[OF inv' p'(1,2,3) _ assms(1) res ful] p'(4)
    show ?thesis by simp
  qed
  then show ?thesis by (simp add: loadData_Served)
qed

theorem cache_hit_after_success_witness:
  "ClearCache None \<notin> set [Settle 0 (FetchResponse True 200 (Inr (5::nat))), Resume 0, Load ''b'' False] \<and>
   fst (loadData ''a'' True (run [] (DataLoader :: nat loader))) = Initiated 0 \<and>
   handle_outcome (run [Settle 0 (FetchResponse True 200 (Inr 5)), Resume 0, Load ''b'' False]
       (snd (loadData ''a'' True (run [] (DataLoader :: nat loader)))))
     (fst (loadData ''a'' True (run [] (DataLoader :: nat loader)))) = Fulfilled 5 \<and>
   fst (loadData ''a'' True (run [Settle 0 (FetchResponse True 200 (Inr 5)), Resume 0, Load ''b'' False]
       (snd (loadData ''a'' True (run [] (DataLoader :: nat loader)))))) = Served 5 \<and>
   requests (snd (loadData ''a'' True (run [Settle 0 (FetchResponse True 200 (Inr 5)), Resume 0, Load ''b'' False]
       (snd (loadData ''a'' True (run [] (DataLoader :: nat loader))))))) = [''a'', ''b''] \<and>
   fst (loadData ''a'' True (run [Load ''a'' True] (DataLoader :: nat loader))) = Joined 0 \<and>
   p_useCache (promises (run [Load ''a'' True] (DataLoader :: nat loader)) ! 0) \<and>
   p_resumed (promises (run [Settle 0 (FetchResponse True 200 (Inr 7)), Resume 0]
       (snd (loadData ''a'' True (run [Load ''a'' True] (DataLoader :: nat loader))))) ! 0) \<and>
   handle_outcome (run [Settle 0 (FetchResponse True 200 (Inr 7)), Resume 0]
       (snd (loadData ''a'' True (run [Load ''a'' True] (DataLoader :: nat loader))))) (Joined 0)
     = Fulfilled 7 \<and>
   fst (loadData ''a'' True (run [Settle 0 (FetchResponse True 200 (Inr 7)), Resume 0]
       (snd (loadData ''a'' True (run [Load ''a'' True] (DataLoader :: nat loader)))))) = Served 7"
  using cache_hit_after_success [where evs0 = "[]" and k = "''a''" and v = "5::nat"
      and evs = "[Settle 0 (FetchResponse True 200 (Inr (5::nat))), Resume 0, Load ''b'' False]"]
    cache_hit_after_success [where evs0 = "[Load ''a'' True]" and k = "''a''" and v = "7::nat"
      and evs = "[Settle 0 (FetchResponse True 200 (Inr (7::nat))), Resume 0]"]
  by (simp add: eval_defs)

text \<open>
  Claim C5. A call \<^verbatim>\<open>loadData(k, true)\<close> joins the fetch with promise \<open>p\<close> (it is not served
  from the cache and finds \<open>p\<close> in \<^verbatim>\<open>loadingStates\<close>). Whatever happens until the call that
  started the fetch is resumed, if the fetch has succeeded with \<open>v\<close> then the joining
  caller observes \<open>v\<close>, and the resumed call stores \<open>v\<close> in the cache exactly when its own
  \<^verbatim>\<open>useCache\<close> is true: the flag of the joining call plays no part. When the fetch was
  started with \<^verbatim>\<open>useCache = false\<close>, the key is not cached afterwards and the next
  \<^verbatim>\<open>loadData(k, true)\<close> calls the transport again.
\<close>

theorem joined_bypass_not_cached:
  fixes evs0 evs :: "'v event list"
  assumes "fst (loadData k True (run evs0 DataLoader)) = Joined p"
    and "Resume p \<notin> set evs"
    and "p_state (promises (run evs (snd (loadData k True (run evs0 DataLoader)))) ! p) = Fulfilled v"
  shows "let s0 = run evs0 DataLoader; s1 = run evs (snd (loadData k True s0));
             s2 = step (Resume p) s1
         in handle_outcome s2 (Joined p) = Fulfilled v \<and>
            cache s2 = (if p_useCache (promises s0 ! p) then (cache s1)(k \<mapsto> v) else cache s1) \<and>
            (\<not> p_useCache (promises s0 ! p) \<longrightarrow>
               cache s2 k = None \<and>
               fst (loadData k True s2) = Initiated (length (promises s2)) \<and>
               requests (snd (loadData k True s2)) = requests s2 @ [k])"
proof -
  let ?a = "run evs0 DataLoader"
  let ?b = "run evs (snd (loadData k True ?a))"
  let ?c = "step (Resume p) ?b"
  have inv: "loader_inv ?a" by (rule loader_inv_run[OF loader_inv_DataLoader])
  from assms(1) have c0: "cache ?a k = None" and k0: "loadingStates ?a k = Some p"
    by (simp_all add: loadData_Joined_iff)
  then have same: "snd (loadData k True ?a) = ?a" by (simp add: loadData_Joined)
  have invb: "loader_inv ?b" by (simp add: same loader_inv_run[OF inv])
  from run_in_flight[OF inv k0 assms(2)] have kb: "loadingStates ?b k = Some p" by (simp add: same)
  from run_in_flight_uncached[OF inv k0 assms(2) c0] have cb: "cache ?b k = None" by (simp add: same)
  from loader_inv_marker[OF inv k0] have p: "p < length (promises ?a)" by simp
  from run_promise_frame[OF p, of evs]
  have nb: "p_useCache (promises ?b ! p) = p_useCache (promises ?a ! p)" by (simp add: same)
  from assms(3) have st: "p_state (promises ?b ! p) \<noteq> Pending" by simp
  note r = step_Resume_in_flight[OF invb kb st]
  have cc: "cache ?c = (if p_useCache (promises ?a ! p) then (cache ?b)(k \<mapsto> v) else cache ?b)"
    using r(3) nb assms(3) by simp
  have again: "cache ?c k = None \<and>
    fst (loadData k True ?c) = Initiated (length (promises ?c)) \<and>
    requests (snd (loadData k True ?c)) = requests ?c @ [k]"
    if "\<not> p_useCache (promises ?a ! p)"
    using loadData_new_fetch[of ?c k True] r(1) cc cb that by simp
  have seen: "handle_outcome ?c (Joined p) = Fulfilled v" using r(5) assms(3) by simp
  from seen cc again show ?thesis unfolding Let_def by blast
qed

theorem joined_bypass_not_cached_witness:
  "fst (loadData ''a'' True (run [Load ''a'' False] (DataLoader :: nat loader))) = Joined 0 \<and>
   \<not> p_useCache (promises (run [Load ''a'' False] (DataLoader :: nat loader)) ! 0) \<and>
   Resume 0 \<notin> set [Settle 0 (FetchResponse True 200 (Inr (5::nat)))] \<and>
   p_state (promises (run [Settle 0 (FetchResponse True 200 (Inr 5))]
      (snd (loadData ''a'' True (run [Load ''a'' False] (DataLoader :: nat loader))))) ! 0) = Fulfilled 5 \<and>
   cache (step (Resume 0) (run [Settle 0 (FetchResponse True 200 (Inr 5))]
      (snd (loadData ''a'' True (run [Load ''a'' False] (DataLoader :: nat loader)))))) ''a'' = None \<and>
   requests (snd (loadData ''a'' True (step (Resume 0) (run [Settle 0 (FetchResponse True 200 (Inr 5))]
      (snd (loadData ''a'' True (run [Load ''a'' False] (DataLoader :: nat loader)))))))) = [''a'', ''a'']"
  using joined_bypass_not_cached [where evs0 = "[Load ''a'' False]" and k = "''a''" and p = 0
      and evs = "[Settle 0 (FetchResponse True 200 (Inr (5::nat)))]" and v = 5]
  by (simp add: eval_defs)

text \<open>
  Claim C6. Call \<^verbatim>\<open>loadMultiple(urls, useCache)\<close> in any state a run can reach and let
  anything happen afterwards, the transport answering in any order. The promise it returns
  waits for the promises of \<^verbatim>\<open>loadData\<close> for the urls, one for each url and in their
  order. It is fulfilled as soon as all of them are; and when it is fulfilled with \<open>vs\<close>,
  then \<open>vs\<close> is as long as \<open>urls\<close> and its \<open>i\<close>-th value is the value the call for the
  \<open>i\<close>-th url resolved to: the value cached for that url when the call was made, or the
  value with which a fetch for that very url was fulfilled.
\<close>

theorem loadMultiple_in_order:
  fixes evs0 evs :: "'v event list"
  shows "let s0 = run evs0 DataLoader;
             a = fst (loadMultiple urls useCache s0);
             s = run evs (snd (loadMultiple urls useCache s0));
             hs = members (alls s ! a)
         in hs = fst (loadEach urls useCache s0) \<and> length hs = length urls \<and>
            ((\<forall>h \<in> set hs. \<exists>v. handle_outcome s h = Fulfilled v) \<longrightarrow>
               (\<exists>vs. a_state (alls s ! a) = Fulfilled vs)) \<and>
            (\<forall>vs. a_state (alls s ! a) = Fulfilled vs \<longrightarrow>
               length vs = length urls \<and>
               (\<forall>i < length urls.
                  handle_outcome s (hs ! i) = Fulfilled (vs ! i) \<and>
                  ((useCache \<and> cache s0 (urls ! i) = Some (vs ! i)) \<or>
                   (\<exists>p < length (promises s).
                      p_url (promises s ! p) = urls ! i \<and>
                      p_state (promises s ! p) = Fulfilled (vs ! i)))))"
proof -
  let ?init = "run evs0 DataLoader :: 'v loader"
  let ?a = "fst (loadMultiple urls useCache ?init)"
  let ?after = "snd (loadMultiple urls useCache ?init)"
  let ?now = "run evs ?after"
  let ?hs = "fst (loadEach urls useCache ?init)"
  have inv: "loader_inv ?init" by (rule loader_inv_run[OF loader_inv_DataLoader])
  have ainv: "alls_inv ?init" by (rule alls_inv_run[OF alls_inv_DataLoader])
  note lm = loadMultiple_run[OF ainv]
  have len: "length ?hs = length urls" by simp
  have live: "\<exists>vs. a_state (alls ?now ! ?a) = Fulfilled vs"
    if all: "\<forall>h \<in> set ?hs. \<exists>v. handle_outcome ?now h = Fulfilled v"
  proof -
    have "\<exists>vs. map (handle_outcome ?now) hs = map Fulfilled vs"
      if "\<forall>h \<in> set hs. \<exists>v. handle_outcome ?now h = Fulfilled v" for hs
      using that
    proof (induction hs)
      case Nil
      then show ?case by simp
    next
      case (Cons h hs)
      then obtain v vs where "handle_outcome ?now h = Fulfilled v"
        "map (handle_outcome ?now) hs = map Fulfilled vs" by auto
      then show ?case by (intro exI[of _ "v # vs"]) simp
    qed
    from this[OF all] obtain vs where "map (handle_outcome ?now) ?hs = map Fulfilled vs" ..
    with all_ok_Fulfilled_iff[OF lm(3), where vs = vs] lm(2) show ?thesis by auto
  qed
  have pos: "length vs = length urls \<and>
      (\<forall>i < length urls.
         handle_outcome ?now (?hs ! i) = Fulfilled (vs ! i) \<and>
         ((useCache \<and> cache ?init (urls ! i) = Some (vs ! i)) \<or>
          (\<exists>p < length (promises ?now).
             p_url (promises ?now ! p) = urls ! i \<and>
             p_state (promises ?now ! p) = Fulfilled (vs ! i))))"
    if f: "a_state (alls ?now ! ?a) = Fulfilled vs" for vs
  proof -
    from all_ok_Fulfilled_iff[OF lm(3), where vs = vs] f lm(2)
    have m: "map (handle_outcome ?now) ?hs = map Fulfilled vs" by simp
    then have l: "length vs = length urls" using len by (metis length_map)
    have "handle_outcome ?now (?hs ! i) = Fulfilled (vs ! i) \<and>
         ((useCache \<and> cache ?init (urls ! i) = Some (vs ! i)) \<or>
          (\<exists>p < length (promises ?now).
             p_url (promises ?now ! p) = urls ! i \<and>
             p_state (promises ?now ! p) = Fulfilled (vs ! i)))"
      if i: "i < length urls" for i
    proof -
      from m i l have o: "handle_outcome ?now (?hs ! i) = Fulfilled (vs ! i)"
        by (metis len nth_map)
      from loadEach_handle_of[OF inv i, of useCache]
      have "handle_of ?after (urls ! i) useCache (?hs ! i)"
        by (cases "?hs ! i") simp_all
      from handle_of_run[OF loader_inv_loadMultiple[OF inv] this o] o show ?thesis by simp
    qed
    with l show ?thesis by blast
  qed
  from lm(2) len live pos show ?thesis unfolding Let_def by (simp only:) blast
qed

theorem loadMultiple_in_order_witness:
  "a_state (alls (run [Settle 2 (FetchResponse True 200 (Inr 30)), Resume 2,
                       Settle 0 (FetchResponse True 200 (Inr 10)), Resume 0,
                       Settle 1 (FetchResponse True 200 (Inr 20)), Resume 1]
      (snd (loadMultiple [''a'', ''b'', ''c''] True (run [] (DataLoader :: nat loader))))) !
      fst (loadMultiple [''a'', ''b'', ''c''] True (run [] (DataLoader :: nat loader))))
     = Fulfilled [10, 20, 30] \<and>
   map p_url (promises (run [Settle 2 (FetchResponse True 200 (Inr 30)), Resume 2,
                       Settle 0 (FetchResponse True 200 (Inr 10)), Resume 0,
                       Settle 1 (FetchResponse True 200 (Inr 20)), Resume 1]
      (snd (loadMultiple [''a'', ''b'', ''c''] True (run [] (DataLoader :: nat loader))))))
     = [''a'', ''b'', ''c''] \<and>
   map p_state (promises (run [Settle 2 (FetchResponse True 200 (Inr 30)), Resume 2,
                       Settle 0 (FetchResponse True 200 (Inr 10)), Resume 0,
                       Settle 1 (FetchResponse True 200 (Inr 20)), Resume 1]
      (snd (loadMultiple [''a'', ''b'', ''c''] True (run [] (DataLoader :: nat loader))))))
     = [Fulfilled 10, Fulfilled 20, Fulfilled 30]"
  using loadMultiple_in_order [where evs0 = "[]" and urls = "[''a'', ''b'', ''c'']" and useCache = True
      and evs = "[Settle 2 (FetchResponse True 200 (Inr 30)), Resume 2,
               Settle 0 (FetchResponse True 200 (Inr 10)), Resume 0,
               Settle 1 (FetchResponse True 200 (Inr 20)), Resume (1::nat)] :: nat event list"]
  by (simp add: eval_defs)



text \<open>
  Claim C8. The promise of \<^verbatim>\<open>preload(urls)\<close>, in any run and for any urls: it awaits the
  promise of \<^verbatim>\<open>loadMultiple(urls, true)\<close>, and however that one settles, the promise of
  \<^verbatim>\<open>preload\<close> is fulfilled, never rejected. As soon as one of the loads has failed it
  is fulfilled after a warning on the console that carries the reason; when all loads have
  succeeded it is fulfilled after the message of success.
\<close>

theorem preload_never_rejects:
  fixes evs0 evs :: "'v event list"
  shows "let s0 = run evs0 DataLoader;
             a = fst (preload urls s0);
             s = run evs (snd (preload urls s0));
             hs = members (alls s ! a);
             r = a_state (alls s ! a)
         in hs = fst (loadEach urls True s0) \<and>
            (\<forall>c out. preload_settle r = Some (c, out) \<longrightarrow> out = Inr ()) \<and>
            ((\<exists>h \<in> set hs. \<exists>e. handle_outcome s h = Rejected e) \<longrightarrow>
               (\<exists>e. r = Rejected e \<and>
                  preload_settle r = Some (ConsoleWarn ''Some data failed to preload:'' e, Inr ()))) \<and>
            ((\<forall>h \<in> set hs. \<exists>v. handle_outcome s h = Fulfilled v) \<longrightarrow>
               preload_settle r = Some (ConsoleLog ''Data preloaded successfully'', Inr ()))"
proof -
  let ?init = "run evs0 DataLoader :: 'v loader"
  let ?a = "fst (loadMultiple urls True ?init)"
  let ?now = "run evs (snd (loadMultiple urls True ?init))"
  let ?hs = "fst (loadEach urls True ?init)"
  let ?r = "a_state (alls ?now ! ?a)"
  have ainv: "alls_inv ?init" by (rule alls_inv_run[OF alls_inv_DataLoader])
  note lm = loadMultiple_run[OF ainv]
  have m: "members (alls ?now ! ?a) = ?hs" by (rule lm(2))
  have ok: "all_ok ?now (alls ?now ! ?a)" by (rule lm(3))
  have never: "\<forall>c out. preload_settle ?r = Some (c, out) \<longrightarrow> out = Inr ()"
    by (cases ?r) auto
  have fail: "\<exists>e. ?r = Rejected e \<and>
      preload_settle ?r = Some (ConsoleWarn ''Some data failed to preload:'' e, Inr ())"
    if "\<exists>h \<in> set ?hs. \<exists>e. handle_outcome ?now h = Rejected e"
  proof -
    from that all_ok_Rejected_iff[OF ok] m obtain e where "?r = Rejected e" by auto
    then show ?thesis by simp
  qed
  have good: "preload_settle ?r = Some (ConsoleLog ''Data preloaded successfully'', Inr ())"
    if all: "\<forall>h \<in> set ?hs. \<exists>v. handle_outcome ?now h = Fulfilled v"
  proof -
    from ok have "?r \<noteq> Pending"
    proof (rule contrapos_pn)
      assume "?r = Pending"
      show "\<not> all_ok ?now (alls ?now ! ?a)"
      proof
        assume "all_ok ?now (alls ?now ! ?a)"
        with \<open>?r = Pending\<close> m have "all_settle (map (handle_outcome ?now) ?hs) = Pending"
          by (simp add: all_ok_def)
        then have "Pending \<in> set (map (handle_outcome ?now) ?hs)" by (simp add: all_settle_Pending)
        with all show False by auto
      qed
    qed
    moreover have "\<forall>e. ?r \<noteq> Rejected e"
      using all_ok_Rejected_iff[OF ok] m all by auto
    ultimately show ?thesis by (cases ?r) auto
  qed
  from m never fail good show ?thesis
    unfolding Let_def preload_def by (simp only:) blast
qed

theorem preload_never_rejects_witness:
  "handle_outcome (run [Settle 0 (FetchRejected (JsError ''TypeError'' ''Failed to fetch'')), Resume 0,
        Settle 1 (FetchResponse False 500 (Inr 20)), Resume 1]
      (snd (preload [''a'', ''b''] (run [] (DataLoader :: nat loader))))) (Initiated 0)
     = Rejected (JsError ''TypeError'' ''Failed to fetch'') \<and>
   handle_outcome (run [Settle 0 (FetchRejected (JsError ''TypeError'' ''Failed to fetch'')), Resume 0,
        Settle 1 (FetchResponse False 500 (Inr 20)), Resume 1]
      (snd (preload [''a'', ''b''] (run [] (DataLoader :: nat loader))))) (Initiated 1)
     = Rejected (http_error 500) \<and>
   preload_settle (a_state (alls (run [Settle 0 (FetchRejected (JsError ''TypeError'' ''Failed to fetch'')),
        Resume 0, Settle 1 (FetchResponse False 500 (Inr 20)), Resume 1]
      (snd (preload [''a'', ''b''] (run [] (DataLoader :: nat loader))))) !
      fst (preload [''a'', ''b''] (run [] (DataLoader :: nat loader)))))
     = Some (ConsoleWarn ''Some data failed to preload:'' (JsError ''TypeError'' ''Failed to fetch''), Inr ())"
  using preload_never_rejects [where evs0 = "[]" and urls = "[''a'', ''b'']"
      and evs = "[Settle 0 (FetchRejected (JsError ''TypeError'' ''Failed to fetch'')), Resume 0,
        Settle 1 (FetchResponse False 500 (Inr 20)), Resume 1] :: nat event list"]
  by (simp add: eval_defs)

text \<open>
  Claim C9. In every state a run can reach, \<^verbatim>\<open>clearCache(k)\<close> with a key \<open>k\<close> (a string
  that is not empty) removes the entry of \<open>k\<close> from the cache and leaves every other entry
  as it is; \<^verbatim>\<open>clearCache()\<close> empties the cache; neither form changes \<^verbatim>\<open>loadingStates\<close>,
  the promises or the requests made. A fetch under way when the cache is cleared still
  completes: if it was started by a caching call and the transport then answers with data
  \<open>v\<close>, the resumed call stores \<open>v\<close> in the cache and removes the entry of
  \<^verbatim>\<open>loadingStates\<close>.
\<close>

theorem clearCache_frame:
  fixes evs :: "'v event list"
  shows "(k \<noteq> [] \<longrightarrow> cache (clearCache (Some k) (run evs DataLoader)) = (cache (run evs DataLoader))(k := None)) \<and>
    cache (clearCache None (run evs DataLoader)) = Map.empty \<and>
    loadingStates (clearCache arg (run evs DataLoader)) = loadingStates (run evs DataLoader) \<and>
    promises (clearCache arg (run evs DataLoader)) = promises (run evs DataLoader) \<and>
    requests (clearCache arg (run evs DataLoader)) = requests (run evs DataLoader) \<and>
    (loadingStates (run evs DataLoader) u = Some p \<and>
     p_useCache (promises (run evs DataLoader) ! p) \<and>
     p_state (promises (run evs DataLoader) ! p) = Pending \<and>
     snd (fetchData_settle u t) = Inr v \<longrightarrow>
       cache (run [ClearCache arg, Settle p t, Resume p] (run evs DataLoader)) u = Some v \<and>
       loadingStates (run [ClearCache arg, Settle p t, Resume p] (run evs DataLoader)) u = None)"
proof -
  let ?s = "run evs DataLoader"
  have inv: "loader_inv ?s" by (rule loader_inv_run[OF loader_inv_DataLoader])
  have fly: "cache (run [ClearCache arg, Settle p t, Resume p] ?s) u = Some v \<and>
       loadingStates (run [ClearCache arg, Settle p t, Resume p] ?s) u = None"
    if h: "loadingStates ?s u = Some p" "p_useCache (promises ?s ! p)"
      "p_state (promises ?s ! p) = Pending" "snd (fetchData_settle u t) = Inr v"
  proof -
    from loader_inv_marker[OF inv h(1)]
    have p: "p < length (promises ?s)" "p_url (promises ?s ! p) = u" "\<not> p_resumed (promises ?s ! p)"
      by simp_all
    let ?c = "clearCache arg ?s"
    let ?t = "settle p t ?c"
    have pt: "promises ?t ! p = (promises ?s ! p)\<lparr>p_state := Fulfilled v\<rparr>"
      using p h by (simp add: settle_Pending settled_def)
    have "resumable p ?t" using p pt by (simp add: resumable_def)
    then show ?thesis using p h pt
      by (simp add: loadData_resume_cache loadData_resume_loadingStates)
  qed
  have one: "k \<noteq> [] \<longrightarrow> cache (clearCache (Some k) ?s) = (cache ?s)(k := None)"
    by (simp add: clearCache_def)
  have every: "cache (clearCache None ?s) = Map.empty"
    by (simp add: clearCache_def)
  from one every fly show ?thesis by simp
qed

theorem clearCache_frame_witness:
  "''a'' \<noteq> [] \<and>
   cache (run [Load ''a'' True, Settle 0 (FetchResponse True 200 (Inr 1)), Resume 0, Load ''b'' True]
      (DataLoader :: nat loader)) ''a'' = Some 1 \<and>
   cache (clearCache (Some ''a'')
     (run [Load ''a'' True, Settle 0 (FetchResponse True 200 (Inr 1)), Resume 0, Load ''b'' True]
      (DataLoader :: nat loader))) ''a'' = None \<and>
   loadingStates (run [Load ''a'' True, Settle 0 (FetchResponse True 200 (Inr 1)), Resume 0, Load ''b'' True]
      (DataLoader :: nat loader)) ''b'' = Some 1 \<and>
   cache (run [ClearCache None, Settle 1 (FetchResponse True 200 (Inr 2)), Resume 1]
     (run [Load ''a'' True, Settle 0 (FetchResponse True 200 (Inr 1)), Resume 0, Load ''b'' True]
      (DataLoader :: nat loader))) ''b'' = Some 2"
  using clearCache_frame [where k = "''a''" and u = "''b''" and p = 1 and v = "2::nat"
      and t = "FetchResponse True 200 (Inr 2)" and arg = None
      and evs = "[Load ''a'' True, Settle 0 (FetchResponse True 200 (Inr 1)), Resume 0, Load ''b'' True]"]
  by (simp add: DataLoader_def loadData_def fetchData_def settle_def loadData_resume_def
      refresh_def settled_def)

text \<open>
  Claim C10. Take a fetch under way for \<open>k\<close> whose promise is pending, let the transport
  answer it with \<open>t\<close>, and resume the call that started it, with anything else happening in
  between. The call that started the fetch and every call that joined it have the same
  outcome; it is a rejection exactly when \<open>t\<close> is a response with a status that is not
  \<^verbatim>\<open>ok\<close> or a failure of the transport (a rejected \<^verbatim>\<open>fetch\<close>, a body that does not
  parse). For a bad status the error is the \<^verbatim>\<open>Error\<close> of line 41, whose message carries
  the status in decimal (different statuses give different errors); a failure of the
  transport is passed on unchanged. As the failures of the platform are never named
  \<^verbatim>\<open>Error\<close>, the error tells which of the two happened.
\<close>

theorem load_fails_with_transport:
  fixes evs0 evs :: "'v event list"
  assumes "loadingStates (run evs0 DataLoader) k = Some p"
    and "p_state (promises (run evs0 DataLoader) ! p) = Pending"
    and "Resume p \<notin> set evs"
  shows "let s = step (Resume p) (run evs (step (Settle p t) (run evs0 DataLoader)));
             out = handle_outcome s (Initiated p)
         in handle_outcome s (Joined p) = out \<and>
            out = settled (snd (fetchData_settle k t)) \<and>
            ((\<exists>e. out = Rejected e) \<longleftrightarrow> bad_status t \<or> transport_failure t \<noteq> None) \<and>
            (bad_status t \<longrightarrow> out = Rejected (http_error (status_of t))) \<and>
            (\<forall>e. transport_failure t = Some e \<longrightarrow> out = Rejected e) \<and>
            ((\<forall>e. transport_failure t = Some e \<longrightarrow> platform_failure e) \<longrightarrow>
               (\<forall>e. out = Rejected e \<longrightarrow> (is_http_error e \<longleftrightarrow> bad_status t))) \<and>
            (\<forall>a b. http_error a = http_error b \<longrightarrow> a = b)"
proof -
  let ?a = "run evs0 DataLoader"
  let ?a' = "step (Settle p t) ?a"
  let ?b = "run evs ?a'"
  let ?c = "step (Resume p) ?b"
  let ?r = "settled (snd (fetchData_settle k t)) :: 'v promise_state"
  have inv: "loader_inv ?a" by (rule loader_inv_run[OF loader_inv_DataLoader])
  have inv': "loader_inv ?a'" by (rule loader_inv_step[OF inv])
  have invb: "loader_inv ?b" by (rule loader_inv_run[OF inv'])
  from loader_inv_marker[OF inv assms(1)]
  have p: "p < length (promises ?a)" "p_url (promises ?a ! p) = k" by simp_all
  have p': "p < length (promises ?a')" using p by simp
  have st': "p_state (promises ?a' ! p) = ?r"
    using p assms(2) by (simp add: settle_promises_nth)
  have k': "loadingStates ?a' k = Some p" using assms(1) by simp
  from run_in_flight[OF inv' k' assms(3)] have kb: "loadingStates ?b k = Some p" by simp
  from run_promise_state[OF p', of evs] st' have stb: "p_state (promises ?b ! p) = ?r" by simp
  then have "p_state (promises ?b ! p) \<noteq> Pending" by simp
  note r = step_Resume_in_flight[OF invb kb this]
  have i: "handle_outcome ?c (Initiated p) = ?r" and j: "handle_outcome ?c (Joined p) = ?r"
    using r(4,5) stb by simp_all
  have d: "(\<forall>e. transport_failure t = Some e \<longrightarrow> platform_failure e) \<longrightarrow>
               (\<forall>e. ?r = Rejected e \<longrightarrow> (is_http_error e \<longleftrightarrow> bad_status t))"
    using fetchData_settle_distinguished[of t k] by blast
  have h: "\<forall>a b. http_error a = http_error b \<longrightarrow> a = b" using http_error_inj by blast
  show ?thesis
    unfolding Let_def i j
    using fetchData_settle_fails[of k t] fetchData_settle_bad_status[of t k]
      fetchData_settle_transport_failure[of t _ k] d h
    by blast
qed

theorem load_fails_with_transport_witness:
  "loadingStates (run [Load ''a'' True] (DataLoader :: nat loader)) ''a'' = Some 0 \<and>
   p_state (promises (run [Load ''a'' True] (DataLoader :: nat loader)) ! 0) = Pending \<and>
   Resume 0 \<notin> set [Load ''a'' False :: nat event] \<and>
   bad_status (FetchResponse False 404 (Inr (5::nat))) \<and>
   handle_outcome (step (Resume 0) (run [Load ''a'' False]
     (step (Settle 0 (FetchResponse False 404 (Inr 5))) (run [Load ''a'' True] (DataLoader :: nat loader)))))
     (Initiated 0) = Rejected (JsError ''Error'' ''HTTP error! status: 404'') \<and>
   is_http_error (JsError ''Error'' ''HTTP error! status: 404'') \<and>
   transport_failure (FetchRejected (JsError ''TypeError'' ''Failed to fetch'') :: nat transport_outcome)
     = Some (JsError ''TypeError'' ''Failed to fetch'') \<and>
   platform_failure (JsError ''TypeError'' ''Failed to fetch'') \<and>
   handle_outcome (step (Resume 0) (run [Load ''a'' False]
     (step (Settle 0 (FetchRejected (JsError ''TypeError'' ''Failed to fetch'')))
       (run [Load ''a'' True] (DataLoader :: nat loader)))))
     (Joined 0) = Rejected (JsError ''TypeError'' ''Failed to fetch'') \<and>
   \<not> is_http_error (JsError ''TypeError'' ''Failed to fetch'')"
proof -
  let ?e = "JsError ''TypeError'' ''Failed to fetch''"
  have d: "decimal 404 = ''404''" by code_simp
  have a: "loadingStates (run [Load ''a'' True] (DataLoader :: nat loader)) ''a'' = Some 0"
    and b: "p_state (promises (run [Load ''a'' True] (DataLoader :: nat loader)) ! 0) = Pending"
    and c: "Resume 0 \<notin> set [Load ''a'' False :: nat event]"
    by (simp_all add: eval_defs)
  note bad = load_fails_with_transport [OF a b c, of "FetchResponse False 404 (Inr 5)",
      unfolded Let_def, THEN conjunct2, THEN conjunct1]
  note net = load_fails_with_transport [OF a b c, of "FetchRejected ?e",
      unfolded Let_def]
  have 1: "handle_outcome (step (Resume 0) (run [Load ''a'' False]
     (step (Settle 0 (FetchResponse False 404 (Inr 5))) (run [Load ''a'' True] (DataLoader :: nat loader)))))
     (Initiated 0) = Rejected (JsError ''Error'' ''HTTP error! status: 404'')"
    by (subst bad) (simp add: settled_def http_error_def d)
  have 2: "handle_outcome (step (Resume 0) (run [Load ''a'' False]
     (step (Settle 0 (FetchRejected ?e)) (run [Load ''a'' True] (DataLoader :: nat loader)))))
     (Joined 0) = Rejected ?e"
    by (subst net[THEN conjunct1], subst net[THEN conjunct2, THEN conjunct1])
      (simp add: settled_def)
  have 3: "is_http_error (JsError ''Error'' ''HTTP error! status: 404'')"
    "platform_failure ?e" "\<not> is_http_error ?e"
    by (simp_all add: is_http_error_def platform_failure_def)
  have 4: "bad_status (FetchResponse False 404 (Inr (5::nat)))"
    "transport_failure (FetchRejected ?e :: nat transport_outcome) = Some ?e"
    by simp_all
  from a b c 1 2 3 4 show ?thesis by blast
qed

end
